theory Spec2Isabelle
  imports Complex_Main "HOL-Library.Multiset"
begin

unbundle bit_operations_syntax

section \<open>Batched arrays\<close>

text \<open>
  The engine of \<^verbatim>\<open>src/game.py\<close> keeps every per-cell quantity in one integer array of
  shape \<open>(n, rows, columns)\<close> and every per-slot quantity in an array of shape \<open>(n)\<close>.
  An array of the first kind is a list of boards, a board a list of rows, a row a list of
  cells. Cells are integers. The arrays are created as \<^verbatim>\<open>int8\<close>; the values the engine
  computes itself stay within \<open>-1..9\<close>, and where a value of the caller is stored into an
  array the conversion to \<^verbatim>\<open>int8\<close> is written out.
\<close>

type_synonym board = "int list list"
type_synonym boards = "board list"

text \<open>Boolean-mask indexing \<^verbatim>\<open>xs[mask]\<close>: the entries whose mask is set, in order.\<close>

fun sel :: "bool list \<Rightarrow> 'a list \<Rightarrow> 'a list" where
  "sel (m # ms) (x # xs) = (if m then x # sel ms xs else sel ms xs)"
| "sel _ _ = []"

text \<open>Boolean-mask assignment \<^verbatim>\<open>xs[mask] = vs\<close>: the k-th set position receives the k-th value.\<close>

fun put :: "bool list \<Rightarrow> 'a list \<Rightarrow> 'a list \<Rightarrow> 'a list" where
  "put (m # ms) (x # xs) vs =
     (if m then (case vs of [] \<Rightarrow> x # put ms xs [] | v # vs' \<Rightarrow> v # put ms xs vs')
      else x # put ms xs vs)"
| "put _ xs _ = xs"

text \<open>Boolean-mask assignment of one scalar, \<^verbatim>\<open>xs[mask] = v\<close>.\<close>

fun fill :: "bool list \<Rightarrow> 'a list \<Rightarrow> 'a \<Rightarrow> 'a list" where
  "fill (m # ms) (x # xs) v = (if m then v else x) # fill ms xs v"
| "fill _ xs _ = xs"

definition count_true :: "bool list \<Rightarrow> nat" where
  "count_true ms = length (filter id ms)"

text \<open>The position that slot \<open>i\<close> takes in an array compressed by \<open>mask\<close>.\<close>

definition rank :: "bool list \<Rightarrow> nat \<Rightarrow> nat" where
  "rank ms i = count_true (take i ms)"

text \<open>Elementwise arithmetic on boards, and the reductions over the two cell axes.\<close>

definition cellwise :: "(int \<Rightarrow> int \<Rightarrow> int) \<Rightarrow> board \<Rightarrow> board \<Rightarrow> board" where
  "cellwise f a b = map2 (map2 f) a b"

definition one_minus :: "board \<Rightarrow> board" where
  "one_minus a = map (map (\<lambda>x. 1 - x)) a"

definition any_cell :: "board \<Rightarrow> bool" where
  "any_cell a = list_ex (list_ex (\<lambda>x. x \<noteq> 0)) a"

definition all_cell :: "board \<Rightarrow> bool" where
  "all_cell a = list_all (list_all (\<lambda>x. x \<noteq> 0)) a"

definition zeros_like :: "boards \<Rightarrow> boards" where
  "zeros_like a = map (map (map (\<lambda>_. 0))) a"

definition cell :: "board \<Rightarrow> nat \<Rightarrow> nat \<Rightarrow> int" where
  "cell b r c = b ! r ! c"

definition shaped :: "nat \<Rightarrow> nat \<Rightarrow> board \<Rightarrow> bool" where
  "shaped h w b \<longleftrightarrow> length b = h \<and> list_all (\<lambda>row. length row = w) b"

definition binary :: "board \<Rightarrow> bool" where
  "binary b \<longleftrightarrow> list_all (list_all (\<lambda>x. x = 0 \<or> x = 1)) b"

section \<open>The game record\<close>

text \<open>
  The attributes of class \<^verbatim>\<open>Game\<close>. \<open>n_games\<close> and \<open>size_cells\<close> are the attributes
  \<^verbatim>\<open>n\<close> and \<^verbatim>\<open>size\<close>.
\<close>

record game =
  n_games :: nat
  rows :: nat
  columns :: nat
  size_cells :: nat
  mines_n :: "int list"
  mines :: boards
  numbers :: boards
  open_cells :: boards
  flags :: boards
  active_games :: "bool list"
  won :: "bool list"
  last_opened :: boards
  last_flagged :: boards

datatype error = Shape_mismatch | Index_out_of_range | Empty_reduction

section \<open>Board generation\<close>

text \<open>
  A hazard count is passed as one number for all slots or as one number per slot
  (\<^verbatim>\<open>Union[int, np.ndarray]\<close>, told apart by \<^verbatim>\<open>np.isscalar\<close>).
\<close>

datatype count_arg = Scalar int | Array "int list"

text \<open>
  The end of the slice \<^verbatim>\<open>[:k]\<close> of a row of length \<open>len\<close>: a negative \<open>k\<close> counts from
  the end of the row, and both ends are clamped to the row.
\<close>

definition slice_stop :: "nat \<Rightarrow> int \<Rightarrow> nat" where
  "slice_stop len k = (if k < 0 then nat (max (int len + k) 0) else min (nat k) len)"

text \<open>A row of zeros after \<^verbatim>\<open>m[i, :k] = 1\<close>.\<close>

definition ones_prefix :: "nat \<Rightarrow> int \<Rightarrow> int list" where
  "ones_prefix len k = replicate (slice_stop len k) 1 @ replicate (len - slice_stop len k) 0"

text \<open>
  \<^verbatim>\<open>rng.permuted(m, axis=1, out=m)\<close> shuffles every row on its own. The generator's choice is
  a parameter: one list of positions per row, \<open>p ! j\<close> the old position of the cell that
  lands at \<open>j\<close>. A choice is a shuffle of a row of length \<open>len\<close> when it sorts to \<open>[0..<len]\<close>.
\<close>

definition permuted :: "nat list list \<Rightarrow> int list list \<Rightarrow> int list list" where
  "permuted ps m = map2 (\<lambda>p row. map (\<lambda>j. row ! j) p) ps m"

definition is_shuffle :: "nat \<Rightarrow> nat list \<Rightarrow> bool" where
  "is_shuffle len p \<longleftrightarrow> sort p = [0..<len]"

text \<open>\<^verbatim>\<open>reshape\<close> of a flat row of \<open>h * w\<close> cells into \<open>h\<close> rows of \<open>w\<close> cells, row-major.\<close>

definition unflatten :: "nat \<Rightarrow> nat \<Rightarrow> int list \<Rightarrow> board" where
  "unflatten h w flat = map (\<lambda>r. take w (drop (r * w) flat)) [0..<h]"

text \<open>
  \<^verbatim>\<open>utils.random_binary_matrices\<close> with \<^verbatim>\<open>shape = (n, h, w)\<close>. With counts given per slot the
  loop \<^verbatim>\<open>for i, n in enumerate(ones): m[i, :n] = 1\<close> raises IndexError at the first count
  beyond the last row, and leaves the rows beyond the last count at zero.
\<close>

definition random_binary_matrices ::
  "nat \<times> nat \<times> nat \<Rightarrow> count_arg \<Rightarrow> nat list list \<Rightarrow> error + boards" where
  "random_binary_matrices shape ones ps =
    (case shape of (n, h, w) \<Rightarrow>
      if n = 0 then Inr []
      else
        (case ones of
           Scalar k \<Rightarrow>
             Inr (map (unflatten h w) (permuted ps (replicate n (ones_prefix (h * w) k))))
         | Array ks \<Rightarrow>
             if n < length ks then Inl Index_out_of_range
             else Inr (map (unflatten h w)
                         (permuted ps (map (ones_prefix (h * w)) ks
                                       @ replicate (n - length ks) (replicate (h * w) 0))))))"

section \<open>Neighbour counts\<close>

text \<open>\<^verbatim>\<open>np.pad(b, [(1,1), (1,1)])\<close> on one board: a frame of zeros.\<close>

definition pad :: "nat \<Rightarrow> board \<Rightarrow> board" where
  "pad w b = replicate (w + 2) 0 # map (\<lambda>row. 0 # row @ [0]) b @ [replicate (w + 2) 0]"

text \<open>The slice \<^verbatim>\<open>p[r0:r1, c0:c1]\<close> with bounds that are not negative.\<close>

definition slice2 :: "board \<Rightarrow> nat \<Rightarrow> nat \<Rightarrow> nat \<Rightarrow> nat \<Rightarrow> board" where
  "slice2 p r0 r1 c0 c1 = map (\<lambda>row. take (c1 - c0) (drop c0 row)) (take (r1 - r0) (drop r0 p))"

text \<open>
  \<^verbatim>\<open>Game._compute_number_cells\<close> on one board. The two loops run over \<open>i, j \<in> {-1, 0, 1}\<close>;
  \<open>di\<close> and \<open>dj\<close> below are \<open>1 + i\<close> and \<open>1 + j\<close>. The window includes the cell itself. The
  last line overwrites the hazard cells with -1.
\<close>

definition window_offsets :: "(nat \<times> nat) list" where
  "window_offsets = [(di, dj). di \<leftarrow> [0, 1, 2], dj \<leftarrow> [0, 1, 2]]"

definition number_cells :: "nat \<Rightarrow> nat \<Rightarrow> board \<Rightarrow> board" where
  "number_cells h w m =
    (let grids0 = map (map (\<lambda>_. 0)) m;
         p = pad w m;
         grids = fold (\<lambda>(di, dj) acc. cellwise (+) acc (slice2 p di (h + di) dj (w + dj)))
                   window_offsets grids0
     in map2 (map2 (\<lambda>x v. if x \<noteq> 0 then - 1 else v)) m grids)"

definition compute_number_cells :: "nat \<Rightarrow> nat \<Rightarrow> boards \<Rightarrow> boards" where
  "compute_number_cells h w ms = map (number_cells h w) ms"

section \<open>Construction\<close>

text \<open>
  \<^verbatim>\<open>Game.__init__(rows, columns, mines_n, n)\<close>, with the shuffles of the generator as the last
  argument. \<open>per_slot_counts\<close> is \<^verbatim>\<open>np.full(n, mines_n) if np.isscalar(mines_n) else mines_n\<close>.
  Nothing in the constructor or in the generator compares a hazard count with the size of
  the board.
\<close>

definition per_slot_counts :: "nat \<Rightarrow> count_arg \<Rightarrow> int list" where
  "per_slot_counts n cnt = (case cnt of Scalar k \<Rightarrow> replicate n k | Array ks \<Rightarrow> ks)"

definition Game_init :: "nat \<Rightarrow> nat \<Rightarrow> count_arg \<Rightarrow> nat \<Rightarrow> nat list list \<Rightarrow> error + game" where
  "Game_init h w cnt n ps =
    (case random_binary_matrices (n, h, w) cnt ps of
       Inl e \<Rightarrow> Inl e
     | Inr ms \<Rightarrow>
         Inr \<lparr>n_games = n, rows = h, columns = w, size_cells = h * w,
              mines_n = per_slot_counts n cnt,
              mines = ms, numbers = compute_number_cells h w ms,
              open_cells = zeros_like ms, flags = zeros_like ms,
              active_games = replicate n True, won = replicate n False,
              last_opened = zeros_like ms, last_flagged = zeros_like ms\<rparr>)"

text \<open>
  The number of hazards among the eight neighbours of cell \<open>(r, c)\<close> that lie on the board,
  written out from the words of the specification for comparison with \<open>number_cells\<close>.
\<close>

definition neighbour_offsets :: "(int \<times> int) list" where
  "neighbour_offsets = [(-1, -1), (-1, 0), (-1, 1), (0, -1), (0, 1), (1, -1), (1, 0), (1, 1)]"

definition hazard_neighbours :: "nat \<Rightarrow> nat \<Rightarrow> board \<Rightarrow> nat \<Rightarrow> nat \<Rightarrow> int" where
  "hazard_neighbours h w m r c =
     (\<Sum>(dr, dc) \<leftarrow> neighbour_offsets.
        if 0 \<le> int r + dr \<and> int r + dr < int h \<and> 0 \<le> int c + dc \<and> int c + dc < int w \<and>
           cell m (nat (int r + dr)) (nat (int c + dc)) \<noteq> 0
        then 1 else 0)"

text \<open>The number of hazard cells of a board.\<close>

definition hazard_count :: "board \<Rightarrow> nat" where
  "hazard_count m = length (filter (\<lambda>x. x \<noteq> 0) (concat m))"

text \<open>
  What a caller owes the constructor for the batch to be well formed: counts given per slot
  come one per slot, and the generator's choices are one shuffle per slot.
\<close>

definition counts_fit :: "nat \<Rightarrow> count_arg \<Rightarrow> bool" where
  "counts_fit n cnt \<longleftrightarrow> (case cnt of Scalar k \<Rightarrow> True | Array ks \<Rightarrow> length ks = n)"

definition shuffles_fit :: "nat \<Rightarrow> nat \<Rightarrow> nat list list \<Rightarrow> bool" where
  "shuffles_fit n len ps \<longleftrightarrow> length ps = n \<and> list_all (is_shuffle len) ps"

section \<open>Moves\<close>

text \<open>
  The per-cell arrays of a game are \<^verbatim>\<open>int8\<close>. An assignment into such an array keeps the low
  eight bits of each value, read as a signed number; \<open>int8\<close> is that conversion and
  \<open>store8\<close> applies it to a board. The products and the bitwise or of \<^verbatim>\<open>Game.move\<close> are
  computed on the values themselves: one factor is a hazard flag, 0 or 1, and a request of
  a boolean or signed integer type promotes the result to a type that holds it. The sum
  \<^verbatim>\<open>open_cells + mines\<close> adds a hazard flag to an \<^verbatim>\<open>int8\<close> value; where numpy wraps it (127 + 1)
  the result is not 0, as without the wrap, so the test \<^verbatim>\<open>np.all\<close> reads the same.
\<close>

definition int8 :: "int \<Rightarrow> int" where
  "int8 v = (v + 128) mod 256 - 128"

definition store8 :: "board \<Rightarrow> board" where
  "store8 b = map (map int8) b"

text \<open>
  \<^verbatim>\<open>Game.move\<close>. The two requests carry one board per slot that is active at the time of the
  call. With \<open>k\<close> active slots, a request of \<open>m\<close> boards passes the two masked assignments to
  \<^verbatim>\<open>last_opened\<close> and \<^verbatim>\<open>last_flagged\<close> when \<open>m = k\<close> or \<open>m = 1\<close> (numpy broadcasts one
  board), and raises \<^verbatim>\<open>ValueError\<close> otherwise. The boolean indices \<^verbatim>\<open>to_open[correct]\<close> and
  \<^verbatim>\<open>to_flag[correct]\<close>, with \<^verbatim>\<open>correct\<close> of length \<open>k\<close>, raise \<^verbatim>\<open>IndexError\<close> when
  \<open>m \<noteq> k\<close>, unless \<open>k = 0\<close>: numpy accepts an empty boolean index on an axis of any
  length. So a call with no active slot and a request of one board returns normally, with
  an empty \<^verbatim>\<open>correct\<close>. The result is the updated game and the array \<^verbatim>\<open>correct\<close>.
\<close>

definition default_open :: "game \<Rightarrow> boards option \<Rightarrow> boards" where
  "default_open g to_open_arg =
     (case to_open_arg of None \<Rightarrow> zeros_like (sel (active_games g) (mines g)) | Some a \<Rightarrow> a)"

definition default_flag :: "boards \<Rightarrow> boards option \<Rightarrow> boards" where
  "default_flag to_open to_flag_arg =
     (case to_flag_arg of None \<Rightarrow> zeros_like to_open | Some a \<Rightarrow> a)"

definition move :: "game \<Rightarrow> boards option \<Rightarrow> boards option \<Rightarrow> error + (game \<times> bool list)" where
  "move g to_open_arg to_flag_arg =
    (let active0 = active_games g;
         k = count_true active0;
         to_open = default_open g to_open_arg;
         to_flag = default_flag to_open to_flag_arg
     in if (length to_open \<noteq> k \<and> length to_open \<noteq> 1) \<or>
           (length to_flag \<noteq> k \<and> length to_flag \<noteq> 1)
        then Inl Shape_mismatch
        else if k \<noteq> 0 \<and> (length to_open \<noteq> k \<or> length to_flag \<noteq> k)
        then Inl Index_out_of_range
        else
          let last_opened1 = put active0 (last_opened g) (map store8 to_open);
              last_flagged1 = put active0 (last_flagged g) (map store8 to_flag);
              correct_open = map (\<lambda>b. \<not> any_cell b)
                               (map2 (cellwise (*)) (sel active0 (mines g)) to_open);
              correct_flag = map (\<lambda>b. \<not> any_cell b)
                               (map2 (cellwise (*)) (map one_minus (sel active0 (mines g))) to_flag);
              correct = map2 (\<and>) correct_open correct_flag;
              active1 = put active0 active0 correct;
              open1 = put active1 (open_cells g)
                        (map2 (\<lambda>x t. store8 (cellwise (OR) x t))
                           (sel active1 (open_cells g)) (sel correct to_open));
              flags1 = put active1 (flags g)
                        (map2 (\<lambda>x t. store8 (cellwise (OR) x t))
                           (sel active1 (flags g)) (sel correct to_flag));
              won1 = map all_cell (map2 (cellwise (+)) open1 (mines g));
              active2 = fill won1 active1 False
          in Inr (g\<lparr>last_opened := last_opened1, last_flagged := last_flagged1,
                     active_games := active2, open_cells := open1, flags := flags1,
                     won := won1\<rparr>, correct))"

text \<open>
  The shapes the engine maintains: every per-cell array holds one \<open>rows \<times> columns\<close> board
  per slot, and the hazard and reveal masks hold only 0 and 1.
\<close>

definition boards_ok :: "game \<Rightarrow> boards \<Rightarrow> bool" where
  "boards_ok g a \<longleftrightarrow>
     length a = length (active_games g) \<and> list_all (shaped (rows g) (columns g)) a"

definition wf_game :: "game \<Rightarrow> bool" where
  "wf_game g \<longleftrightarrow>
     boards_ok g (mines g) \<and> boards_ok g (open_cells g) \<and> boards_ok g (flags g) \<and>
     boards_ok g (last_opened g) \<and> boards_ok g (last_flagged g) \<and>
     list_all binary (mines g) \<and> list_all binary (open_cells g)"

text \<open>A request as \<^verbatim>\<open>move\<close> expects it: one board per active slot.\<close>

definition wf_request :: "game \<Rightarrow> boards \<Rightarrow> bool" where
  "wf_request g a \<longleftrightarrow>
     length a = count_true (active_games g) \<and> list_all (shaped (rows g) (columns g)) a"

section \<open>Opening one minimum cell per board\<close>

text \<open>
  \<^verbatim>\<open>argmax\<close> of a flattened board: the first position that holds the largest value.
\<close>

fun argmax_from :: "nat \<Rightarrow> real \<Rightarrow> nat \<Rightarrow> real list \<Rightarrow> nat" where
  "argmax_from best bv i [] = best"
| "argmax_from best bv i (x # xs) =
     (if bv < x then argmax_from i x (Suc i) xs else argmax_from best bv (Suc i) xs)"

definition argmax :: "real list \<Rightarrow> nat" where
  "argmax xs = (case xs of [] \<Rightarrow> 0 | x # xs' \<Rightarrow> argmax_from 0 x 1 xs')"

text \<open>\<^verbatim>\<open>to_open[i, h, w] = 1\<close> on one board.\<close>

definition set_cell :: "board \<Rightarrow> nat \<Rightarrow> nat \<Rightarrow> int \<Rightarrow> board" where
  "set_cell b h w v = b[h := (b ! h)[w := v]]"

text \<open>
  \<^verbatim>\<open>Game.open_zero\<close>. The draws of \<^verbatim>\<open>self.rng.random(self.mines.shape)\<close> are the parameter
  \<open>rnd\<close>, one real per cell. The minimum is taken over \<^verbatim>\<open>numbers + 10*mines\<close>; a weight is
  the draw where the number equals that minimum and 0 elsewhere; the chosen cell is the
  \<^verbatim>\<open>argmax\<close> of the weights of the flattened board. The request built from the chosen cells
  (\<open>open_zero_request\<close>, the lines up to \<^verbatim>\<open>to_open[...] = 1\<close>) has one board per slot of the
  batch, and is handed to \<^verbatim>\<open>move\<close>.

  numpy raises where the reduction axes are empty (\<^verbatim>\<open>min\<close> over a board without cells),
  where \<^verbatim>\<open>reshape(self.n, 1, 1)\<close> or \<^verbatim>\<open>reshape(self.n, -1)\<close> does not fit (\<^verbatim>\<open>self.n\<close> is
  not the number of boards, or is 0), and where \<^verbatim>\<open>move\<close> raises.
\<close>

definition open_zero_request :: "game \<Rightarrow> real list list list \<Rightarrow> boards" where
  "open_zero_request g rnd =
    (let mins = map (\<lambda>b. min_list (concat b))
                  (map2 (cellwise (+)) (numbers g) (map (map (map (\<lambda>x. 10 * x))) (mines g)));
         weighted_zeros = map2 (\<lambda>rb (nb, mn). map2 (map2 (\<lambda>x v. x * (if v = mn then 1 else 0))) rb nb)
                            rnd (zip (numbers g) mins);
         random_zero = map (\<lambda>wb. argmax (concat wb)) weighted_zeros;
         h_ids = map (\<lambda>z. z div columns g) random_zero;
         w_ids = map (\<lambda>z. z mod columns g) random_zero
     in map2 (\<lambda>b (h, w). set_cell b h w 1) (zeros_like (mines g)) (zip h_ids w_ids))"

definition open_zero :: "game \<Rightarrow> real list list list \<Rightarrow> error + (game \<times> boards)" where
  "open_zero g rnd =
    (if rows g * columns g = 0 then Inl Empty_reduction
     else if n_games g \<noteq> length (mines g) \<or> n_games g = 0 then Inl Shape_mismatch
     else
       let to_open = open_zero_request g rnd
       in case move g (Some to_open) None of
            Inl e \<Rightarrow> Inl e
          | Inr (g', correct) \<Rightarrow> Inr (g', to_open))"


section \<open>Coverage of a board\<close>

text \<open>Every cell of slot \<open>i\<close> is revealed or a hazard.\<close>

definition covered :: "game \<Rightarrow> nat \<Rightarrow> bool" where
  "covered g i \<longleftrightarrow>
     (\<forall>r<rows g. \<forall>c<columns g. cell (open_cells g ! i) r c \<noteq> 0 \<or> cell (mines g ! i) r c \<noteq> 0)"

section \<open>Scores\<close>





section \<open>Arrays as objects: buffers and views\<close>

text \<open>
  \<^verbatim>\<open>Game.__getitem__\<close> hands out arrays that may share memory with the arrays of the game
  they were taken from, so the arrays need an identity. A heap holds the buffers that numpy
  allocated, one list per element type; a buffer is a list of slots (boards, flags or
  counts). An array object is a reference: the buffer it reads and writes, and the slots
  of that buffer it shows, in order. A freshly allocated array shows all slots of its own
  buffer; a view shows some slots of somebody else's.
\<close>

record heap =
  cell_bufs :: "boards list"
  flag_bufs :: "bool list list"
  count_bufs :: "int list list"

record ndref =
  buffer_id :: nat
  view_slots :: "nat list"

text \<open>Reading an array, and assigning to all of it in place (\<^verbatim>\<open>a[...] = vs\<close>).\<close>

definition view :: "'a list list \<Rightarrow> ndref \<Rightarrow> 'a list" where
  "view bufs r = map (\<lambda>j. bufs ! buffer_id r ! j) (view_slots r)"

definition write_view :: "'a list list \<Rightarrow> ndref \<Rightarrow> 'a list \<Rightarrow> 'a list list" where
  "write_view bufs r vs =
     bufs[buffer_id r := fold (\<lambda>(j, v) buf. buf[j := v]) (zip (view_slots r) vs) (bufs ! buffer_id r)]"

text \<open>Allocation of a new array holding \<open>vs\<close>.\<close>

definition alloc :: "'a list list \<Rightarrow> 'a list \<Rightarrow> 'a list list \<times> ndref" where
  "alloc bufs vs = (bufs @ [vs], \<lparr>buffer_id = length bufs, view_slots = [0..<length vs]\<rparr>)"

text \<open>
  The attributes of a \<^verbatim>\<open>Game\<close> object: four numbers and nine references to arrays.
\<close>

record game_obj =
  n_obj :: nat
  rows_obj :: nat
  columns_obj :: nat
  size_obj :: nat
  mines_n_ref :: ndref
  mines_ref :: ndref
  numbers_ref :: ndref
  open_cells_ref :: ndref
  flags_ref :: ndref
  active_games_ref :: ndref
  won_ref :: ndref
  last_opened_ref :: ndref
  last_flagged_ref :: ndref

text \<open>The values a game object holds in a heap.\<close>

definition load :: "heap \<Rightarrow> game_obj \<Rightarrow> game" where
  "load h g = \<lparr>n_games = n_obj g, rows = rows_obj g, columns = columns_obj g,
     size_cells = size_obj g,
     mines_n = view (count_bufs h) (mines_n_ref g),
     mines = view (cell_bufs h) (mines_ref g),
     numbers = view (cell_bufs h) (numbers_ref g),
     open_cells = view (cell_bufs h) (open_cells_ref g),
     flags = view (cell_bufs h) (flags_ref g),
     active_games = view (flag_bufs h) (active_games_ref g),
     won = view (flag_bufs h) (won_ref g),
     last_opened = view (cell_bufs h) (last_opened_ref g),
     last_flagged = view (cell_bufs h) (last_flagged_ref g)\<rparr>"

subsection \<open>Indexing an array along its first axis\<close>

text \<open>
  The keys \<^verbatim>\<open>__getitem__\<close> is modelled for: a Python int, a slice \<^verbatim>\<open>start:stop\<close> with step 1
  (either bound may be absent), and an array of integer indices.
\<close>

datatype key = KInt int | KSlice "int option" "int option" | KIndex "int list"

text \<open>A slice bound on an axis of length \<open>len\<close>: negative bounds count from the end, and the result is clamped.\<close>

definition clamp_index :: "nat \<Rightarrow> int \<Rightarrow> nat" where
  "clamp_index len k = nat (max 0 (min (int len) (if k < 0 then k + int len else k)))"

definition slice_lo :: "nat \<Rightarrow> int option \<Rightarrow> nat" where
  "slice_lo len start = (case start of None \<Rightarrow> 0 | Some s \<Rightarrow> clamp_index len s)"

definition slice_hi :: "nat \<Rightarrow> int option \<Rightarrow> nat" where
  "slice_hi len stop = (case stop of None \<Rightarrow> len | Some s \<Rightarrow> clamp_index len s)"

text \<open>Basic slicing \<^verbatim>\<open>a[start:stop]\<close>: a view of the same buffer.\<close>

definition slice_ref :: "ndref \<Rightarrow> int option \<Rightarrow> int option \<Rightarrow> ndref" where
  "slice_ref r start stop =
    (let len = length (view_slots r);
         lo = slice_lo len start;
         hi = slice_hi len stop
     in r\<lparr>view_slots := take (hi - lo) (drop lo (view_slots r))\<rparr>)"

text \<open>
  The positions named by an index array: negative indices count from the end, and an index
  outside the axis raises IndexError.
\<close>

definition index_positions :: "nat \<Rightarrow> int list \<Rightarrow> error + nat list" where
  "index_positions len idx =
    (if list_all (\<lambda>j. - int len \<le> j \<and> j < int len) idx
     then Inr (map (\<lambda>j. nat (if j < 0 then j + int len else j)) idx)
     else Inl Index_out_of_range)"

text \<open>
  \<^verbatim>\<open>a[key]\<close> after \<^verbatim>\<open>__getitem__\<close> has turned an int into a slice. A slice gives a view and
  leaves the buffers alone; an index array gives a copy in a new buffer.
\<close>

definition getitem_array :: "'a list list \<Rightarrow> ndref \<Rightarrow> key \<Rightarrow> error + ('a list list \<times> ndref)" where
  "getitem_array bufs r k =
    (case k of
       KInt i \<Rightarrow> Inr (bufs, slice_ref r (Some i) (Some (i + 1)))
     | KSlice start stop \<Rightarrow> Inr (bufs, slice_ref r start stop)
     | KIndex idx \<Rightarrow>
         (case index_positions (length (view_slots r)) idx of
            Inl e \<Rightarrow> Inl e
          | Inr ps \<Rightarrow> Inr (alloc bufs (map (\<lambda>p. view bufs r ! p) ps))))"

subsection \<open>Selecting slots of a game\<close>

text \<open>
  \<^verbatim>\<open>Game.__getitem__\<close>. It constructs a game with \<^verbatim>\<open>n = 0\<close> and rebinds each array attribute
  to \<^verbatim>\<open>self.<attribute>[key]\<close>; the empty arrays of the constructed game are dropped at once
  and are not allocated here. \<^verbatim>\<open>g.n\<close> is read from \<^verbatim>\<open>g.mines.shape[0]\<close> before \<^verbatim>\<open>g.mines\<close> is
  rebound, so it stays 0. The attributes are indexed in the order of the source.
\<close>

definition getitem :: "heap \<Rightarrow> game_obj \<Rightarrow> key \<Rightarrow> error + (heap \<times> game_obj)" where
  "getitem h self k =
    (case getitem_array (count_bufs h) (mines_n_ref self) k of Inl e \<Rightarrow> Inl e | Inr (cb, r_mines_n) \<Rightarrow>
     case getitem_array (cell_bufs h) (mines_ref self) k of Inl e \<Rightarrow> Inl e | Inr (c1, r_mines) \<Rightarrow>
     case getitem_array c1 (numbers_ref self) k of Inl e \<Rightarrow> Inl e | Inr (c2, r_numbers) \<Rightarrow>
     case getitem_array c2 (open_cells_ref self) k of Inl e \<Rightarrow> Inl e | Inr (c3, r_open_cells) \<Rightarrow>
     case getitem_array c3 (flags_ref self) k of Inl e \<Rightarrow> Inl e | Inr (c4, r_flags) \<Rightarrow>
     case getitem_array (flag_bufs h) (active_games_ref self) k of Inl e \<Rightarrow> Inl e | Inr (f1, r_active) \<Rightarrow>
     case getitem_array f1 (won_ref self) k of Inl e \<Rightarrow> Inl e | Inr (f2, r_won) \<Rightarrow>
     case getitem_array c4 (last_opened_ref self) k of Inl e \<Rightarrow> Inl e | Inr (c5, r_last_opened) \<Rightarrow>
     case getitem_array c5 (last_flagged_ref self) k of Inl e \<Rightarrow> Inl e | Inr (c6, r_last_flagged) \<Rightarrow>
       Inr (\<lparr>cell_bufs = c6, flag_bufs = f2, count_bufs = cb\<rparr>,
            \<lparr>n_obj = 0, rows_obj = rows_obj self, columns_obj = columns_obj self,
             size_obj = rows_obj self * columns_obj self,
             mines_n_ref = r_mines_n, mines_ref = r_mines, numbers_ref = r_numbers,
             open_cells_ref = r_open_cells, flags_ref = r_flags, active_games_ref = r_active,
             won_ref = r_won, last_opened_ref = r_last_opened,
             last_flagged_ref = r_last_flagged\<rparr>))"

subsection \<open>A move on a game object\<close>

text \<open>
  \<^verbatim>\<open>Game.move\<close> on the heap. The values are those of \<open>move\<close> on the loaded game. The masked
  assignments to \<^verbatim>\<open>last_opened\<close>, \<^verbatim>\<open>last_flagged\<close>, \<^verbatim>\<open>active_games\<close>, \<^verbatim>\<open>open_cells\<close> and \<^verbatim>\<open>flags\<close>
  write into the arrays the object refers to, so the new values go back through the same
  references (a slot outside the mask receives the value it already holds). \<^verbatim>\<open>self.won =
  np.all(...)\<close> binds the attribute to a new array.
\<close>

definition move_obj ::
  "heap \<Rightarrow> game_obj \<Rightarrow> boards option \<Rightarrow> boards option \<Rightarrow> error + (heap \<times> game_obj \<times> bool list)" where
  "move_obj h self to_open to_flag =
    (case move (load h self) to_open to_flag of
       Inl e \<Rightarrow> Inl e
     | Inr (g', correct) \<Rightarrow>
         let c1 = write_view (cell_bufs h) (last_opened_ref self) (last_opened g');
             c2 = write_view c1 (last_flagged_ref self) (last_flagged g');
             f1 = write_view (flag_bufs h) (active_games_ref self) (active_games g');
             c3 = write_view c2 (open_cells_ref self) (open_cells g');
             c4 = write_view c3 (flags_ref self) (flags g');
             (f2, r_won) = alloc f1 (won g')
         in Inr (h\<lparr>cell_bufs := c4, flag_bufs := f2\<rparr>, self\<lparr>won_ref := r_won\<rparr>, correct))"

text \<open>The per-cell arrays of a game object, in the order of the specification.\<close>

definition cell_arrays :: "game_obj \<Rightarrow> ndref list" where
  "cell_arrays g = [mines_ref g, numbers_ref g, open_cells_ref g, flags_ref g,
                    last_opened_ref g, last_flagged_ref g]"

text \<open>
  A reference that points into a heap: its buffer exists, and the slots it shows are slots
  of that buffer, each shown once (which holds for every array numpy allocates and for
  every slice of one).
\<close>

definition ref_ok :: "'a list list \<Rightarrow> ndref \<Rightarrow> bool" where
  "ref_ok bufs r \<longleftrightarrow>
     buffer_id r < length bufs \<and> distinct (view_slots r) \<and>
     list_all (\<lambda>j. j < length (bufs ! buffer_id r)) (view_slots r)"

text \<open>The bounds of the slice that an int or slice key stands for, on an axis of length \<open>len\<close>.\<close>

fun key_lo :: "nat \<Rightarrow> key \<Rightarrow> nat" where
  "key_lo len (KInt i) = slice_lo len (Some i)"
| "key_lo len (KSlice start stop) = slice_lo len start"
| "key_lo len (KIndex idx) = 0"

fun key_hi :: "nat \<Rightarrow> key \<Rightarrow> nat" where
  "key_hi len (KInt i) = slice_hi len (Some (i + 1))"
| "key_hi len (KSlice start stop) = slice_hi len stop"
| "key_hi len (KIndex idx) = 0"

fun is_index_key :: "key \<Rightarrow> bool" where
  "is_index_key (KIndex idx) = True"
| "is_index_key _ = False"

text \<open>
  The slots of the original array that a selection shows, in order: the range of the slice
  for an int or slice key, the listed positions for an index array whose indices all lie
  on the axis.
\<close>

fun key_positions :: "nat \<Rightarrow> key \<Rightarrow> nat list" where
  "key_positions len (KIndex idx) = map (\<lambda>j. nat (if j < 0 then j + int len else j)) idx"
| "key_positions len (KInt i) = [key_lo len (KInt i)..<key_hi len (KInt i)]"
| "key_positions len (KSlice start stop) = [key_lo len (KSlice start stop)..<key_hi len (KSlice start stop)]"

section \<open>The earlier engine and its recursive cascade\<close>

text \<open>
  The repository keeps an earlier \<^verbatim>\<open>Game\<close> class in \<^verbatim>\<open>game.py\<close> at its root. Its boards are
  flat rows of \<open>rows * columns\<close> cells; \<^verbatim>\<open>fields\<close> holds the hazards, \<^verbatim>\<open>grids\<close> the numbers,
  \<^verbatim>\<open>states\<close> is 1 on the cells that are resolved, and \<^verbatim>\<open>scores\<close> counts the safe cells still
  to open. Attributes whose names are taken (by the record of the current engine, or by
  the record package itself) carry the suffix \<open>_l\<close>.
\<close>

record legacy_game =
  n_l :: nat
  rows_l :: nat
  columns_l :: nat
  size_l :: nat
  mines_l :: nat
  fields_l :: "int list list"
  grids :: "int list list"
  states :: "int list list"
  visible_grids :: "int list list"
  scores_l :: "int list"
  mines_scores :: "int list"
  active_grids :: "bool list"
  won_l :: "bool list"
  last_opened_l :: "int list"

text \<open>
  \<^verbatim>\<open>_compute_fields\<close>: \<^verbatim>\<open>np.random.choice(size, mines, replace=False)\<close> gives the positions of
  the hazards of one slot; the choices are a parameter, one list of positions per slot.
\<close>

definition compute_fields :: "nat \<Rightarrow> nat \<Rightarrow> nat list list \<Rightarrow> int list list" where
  "compute_fields n sz choices =
     map (\<lambda>ch. map (\<lambda>j. if j \<in> set ch then 1 else 0) [0..<sz]) (take n choices)"

text \<open>
  \<^verbatim>\<open>_compute_grids\<close>: the same padded sum of nine shifted copies as \<open>number_cells\<close>, on the
  boards reshaped to \<open>rows \<times> columns\<close> and flattened again.
\<close>

definition compute_grids :: "nat \<Rightarrow> nat \<Rightarrow> int list list \<Rightarrow> int list list" where
  "compute_grids h w fs = map (\<lambda>f. concat (number_cells h w (unflatten h w f))) fs"

text \<open>\<^verbatim>\<open>__init__\<close> followed by \<^verbatim>\<open>reset\<close>.\<close>

definition legacy_init :: "nat \<Rightarrow> nat \<Rightarrow> nat \<Rightarrow> nat \<Rightarrow> nat list list \<Rightarrow> legacy_game" where
  "legacy_init h w k n choices =
    (let fs = compute_fields n (h * w) choices;
         st = replicate n (replicate (h * w) 0)
     in \<lparr>n_l = n, rows_l = h, columns_l = w, size_l = h * w, mines_l = k,
         fields_l = fs, grids = compute_grids h w fs, states = st, visible_grids = st,
         scores_l = replicate n (int (h * w) - int k), mines_scores = replicate n (int k),
         active_grids = replicate n True, won_l = replicate n False,
         last_opened_l = replicate n (- 1)\<rparr>)"

subsection \<open>Indexing with integer arrays\<close>

text \<open>
  A numpy index on an axis of length \<open>len\<close>: a negative index counts from the end, and an
  index outside \<open>-len..<len\<close> raises IndexError (\<open>None\<close>).
\<close>

definition py_index :: "nat \<Rightarrow> int \<Rightarrow> nat option" where
  "py_index len i =
     (if 0 \<le> i \<and> i < int len then Some (nat i)
      else if - int len \<le> i \<and> i < 0 then Some (nat (i + int len))
      else None)"

text \<open>One element \<^verbatim>\<open>a[s, r, q]\<close> of a three-dimensional array, read and written.\<close>

definition cell_at :: "boards \<Rightarrow> nat \<times> int \<times> int \<Rightarrow> int option" where
  "cell_at a t =
    (case t of (s, r, q) \<Rightarrow>
       if s < length a then
         (case py_index (length (a ! s)) r of
            None \<Rightarrow> None
          | Some r' \<Rightarrow>
              (case py_index (length (a ! s ! r')) q of
                 None \<Rightarrow> None
               | Some q' \<Rightarrow> Some (a ! s ! r' ! q')))
       else None)"

definition set_at :: "boards \<Rightarrow> nat \<times> int \<times> int \<Rightarrow> int \<Rightarrow> boards" where
  "set_at a t v =
    (case t of (s, r, q) \<Rightarrow>
       (case py_index (length (a ! s)) r of
          None \<Rightarrow> a
        | Some r' \<Rightarrow>
            (case py_index (length (a ! s ! r')) q of
               None \<Rightarrow> a
             | Some q' \<Rightarrow> a[s := (a ! s)[r' := (a ! s ! r')[q' := v]]])))"

text \<open>\<^verbatim>\<open>np.pad(b, [(1,1), (1,1)], constant_values=v)\<close> on one board.\<close>

definition pad_const :: "int \<Rightarrow> nat \<Rightarrow> board \<Rightarrow> board" where
  "pad_const v w b = replicate (w + 2) v # map (\<lambda>row. v # row @ [v]) b @ [replicate (w + 2) v]"

text \<open>\<^verbatim>\<open>np.argmin\<close> of a row: the first position that holds the smallest value.\<close>

fun argmin_from :: "nat \<Rightarrow> int \<Rightarrow> nat \<Rightarrow> int list \<Rightarrow> nat" where
  "argmin_from best bv i [] = best"
| "argmin_from best bv i (x # xs) =
     (if x < bv then argmin_from i x (Suc i) xs else argmin_from best bv (Suc i) xs)"

definition argmin :: "int list \<Rightarrow> nat" where
  "argmin xs = (case xs of [] \<Rightarrow> 0 | x # xs' \<Rightarrow> argmin_from 0 x 1 xs')"

subsection \<open>The cascade\<close>

text \<open>
  The body of the two loops of \<^verbatim>\<open>open_zero\<close> for one offset \<open>(i, j)\<close>, up to the test
  \<^verbatim>\<open>np.any(zeros)\<close>. The frontier \<open>c\<close> is the list of the triples \<open>(c[0][k], c[1][k], c[2][k])\<close>.
  \<^verbatim>\<open>pad_state[t] == 0\<close> reads all neighbours before anything is written; the cells that read 0
  are set to 1; \<^verbatim>\<open>self.scores[t[0]] -= 1\<close> is an assignment through an index array, which
  lowers the score of a slot once however often the slot occurs in \<open>t[0]\<close>. The result is
  the new state, the new scores and the opened cells whose number is 0.
\<close>

definition open_offset ::
  "boards \<Rightarrow> int \<times> int \<Rightarrow> (nat \<times> int \<times> int) list \<Rightarrow> boards \<times> int list
     \<Rightarrow> error + ((nat \<times> int \<times> int) list \<times> boards \<times> int list)" where
  "open_offset pad_grid off c st =
    (case off of (i, j) \<Rightarrow> case st of (pad_state, score) \<Rightarrow>
      let t = map (\<lambda>(s, r, q). (s, r + i, q + j)) c
      in if list_ex (\<lambda>x. cell_at pad_state x = None) t then Inl Index_out_of_range
         else
           let to_open = map (\<lambda>x. cell_at pad_state x = Some 0) t;
               t1 = sel to_open t;
               pad_state1 = fold (\<lambda>x a. set_at a x 1) t1 pad_state;
               scores1 = map2 (\<lambda>s v. if s \<in> set (map fst t1) then v - 1 else v)
                           [0..<length score] score;
               zeros = map (\<lambda>x. cell_at pad_grid x = Some 0) t1
           in Inr (sel zeros t1, pad_state1, scores1))"

definition offsets :: "(int \<times> int) list" where
  "offsets = [(i, j). i \<leftarrow> [-1, 0, 1], j \<leftarrow> [-1, 0, 1]]"

text \<open>
  The two loops with the recursive call in their body. The recursion is bounded by fuel:
  each recursive call takes one unit, and \<open>None\<close> means that the fuel ran out. An
  IndexError ends the whole call.
\<close>

fun cascade ::
  "nat \<Rightarrow> boards \<Rightarrow> (int \<times> int) list \<Rightarrow> (nat \<times> int \<times> int) list \<Rightarrow> boards \<times> int list
     \<Rightarrow> (error + boards \<times> int list) option" where
  "cascade fuel pad_grid [] c st = Some (Inr st)"
| "cascade fuel pad_grid (off # offs) c st =
    (case open_offset pad_grid off c st of
       Inl e \<Rightarrow> Some (Inl e)
     | Inr (t, st1) \<Rightarrow>
         if t = [] then cascade fuel pad_grid offs c st1
         else
           (case fuel of
              0 \<Rightarrow> None
            | Suc fuel' \<Rightarrow>
                (case cascade fuel' pad_grid offsets t st1 of
                   None \<Rightarrow> None
                 | Some (Inl e) \<Rightarrow> Some (Inl e)
                 | Some (Inr st2) \<Rightarrow> cascade fuel pad_grid offs c st2)))"

text \<open>
  \<^verbatim>\<open>open_zero()\<close> called without arguments. The start cell of a slot is the first cell whose
  number is smallest in absolute value, and the slot takes part when that number is 0. The
  start cell \<open>c\<close> is turned into padded coordinates by \<^verbatim>\<open>floor_divide(c, self.rows) + 1\<close> and
  \<^verbatim>\<open>c % self.columns + 1\<close>. \<^verbatim>\<open>argmin\<close> over a row without cells raises.
\<close>

definition start_cells :: "legacy_game \<Rightarrow> (nat \<times> int \<times> int) list" where
  "start_cells g =
    (let c = map (\<lambda>gr. argmin (map abs gr)) (grids g);
         zeros = map2 (\<lambda>gr ci. gr ! ci = 0) (grids g) c;
         c0 = sel zeros [0..<n_l g];
         c1 = sel zeros c
     in map2 (\<lambda>s ci. (s, int (ci div rows_l g) + 1, int (ci mod columns_l g) + 1)) c0 c1)"

definition open_zero_legacy :: "nat \<Rightarrow> legacy_game \<Rightarrow> (error + legacy_game) option" where
  "open_zero_legacy fuel g =
    (if size_l g = 0 then Some (Inl Empty_reduction)
     else
       let pad_grid = map (\<lambda>gr. pad_const (- 1) (columns_l g) (unflatten (rows_l g) (columns_l g) gr))
                        (grids g);
           pad_state = map (\<lambda>st. pad_const (- 1) (columns_l g) (unflatten (rows_l g) (columns_l g) st))
                         (states g)
       in case cascade fuel pad_grid offsets (start_cells g) (pad_state, scores_l g) of
            None \<Rightarrow> None
          | Some (Inl e) \<Rightarrow> Some (Inl e)
          | Some (Inr (pad_state', scores')) \<Rightarrow>
              let states' = map (\<lambda>b. concat (map (\<lambda>row. butlast (tl row)) (butlast (tl b)))) pad_state'
              in Some (Inr (g\<lparr>states := states',
                              visible_grids := map2 (map2 (*)) (grids g) states',
                              scores_l := scores',
                              active_grids := map (\<lambda>s. 0 < s) scores',
                              won_l := map (\<lambda>s. s = 0) scores'\<rparr>)))"

subsection \<open>Padded boards and the region of a cascade\<close>














section \<open>A small batch used to instantiate the theorems\<close>

text \<open>Two 1\<times>2 boards, the hazard in the left cell of slot 0 and in the right cell of slot 1.\<close>

definition example_game :: game where
  "example_game = \<lparr>n_games = 2, rows = 1, columns = 2, size_cells = 2, mines_n = [1, 1],
     mines = [[[1, 0]], [[0, 1]]], numbers = [[[-1, 1]], [[1, -1]]],
     open_cells = [[[0, 0]], [[0, 0]]], flags = [[[0, 0]], [[0, 0]]],
     active_games = [True, True], won = [False, False],
     last_opened = [[[0, 0]], [[0, 0]]], last_flagged = [[[0, 0]], [[0, 0]]]\<rparr>"

text \<open>A request to reveal the right cell of both boards: safe in slot 0, a hazard in slot 1.\<close>

definition example_request :: boards where
  "example_request = [[[0, 1]], [[0, 1]]]"



text \<open>One fully mined 1\<times>2 board.\<close>

definition mined_game :: game where
  "mined_game = \<lparr>n_games = 1, rows = 1, columns = 2, size_cells = 2, mines_n = [2],
     mines = [[[1, 1]]], numbers = [[[-1, -1]]],
     open_cells = [[[0, 0]]], flags = [[[0, 0]]],
     active_games = [True], won = [False],
     last_opened = [[[0, 0]]], last_flagged = [[[0, 0]]]\<rparr>"

text \<open>Random draws for a batch of two 1\<times>2 boards.\<close>

definition example_draws :: "real list list list" where
  "example_draws = [[[1/2, 1/4]], [[1/8, 3/4]]]"

text \<open>A request to mark the hazard of each board, and the batch after that move.\<close>

definition example_flags :: boards where
  "example_flags = [[[1, 0]], [[0, 1]]]"

definition flagged_game :: game where
  "flagged_game = example_game\<lparr>last_flagged := [[[1, 0]], [[0, 1]]], flags := [[[1, 0]], [[0, 1]]]\<rparr>"

text \<open>
  The generator's shuffles for two boards of four cells, the batch constructed from them with
  1 and 4 hazards, and the game constructed with 5 hazards on a 1\<times>2 board.
\<close>

definition example_shuffles :: "nat list list" where
  "example_shuffles = [[1, 0, 3, 2], [0, 1, 2, 3]]"

definition generated_game :: game where
  "generated_game = \<lparr>n_games = 2, rows = 2, columns = 2, size_cells = 4, mines_n = [1, 4],
        mines = [[[0, 1], [0, 0]], [[1, 1], [1, 1]]],
        numbers = [[[1, - 1], [1, 1]], [[- 1, - 1], [- 1, - 1]]],
        open_cells = [[[0, 0], [0, 0]], [[0, 0], [0, 0]]],
        flags = [[[0, 0], [0, 0]], [[0, 0], [0, 0]]],
        active_games = [True, True], won = [False, False],
        last_opened = [[[0, 0], [0, 0]], [[0, 0], [0, 0]]],
        last_flagged = [[[0, 0], [0, 0]], [[0, 0], [0, 0]]]\<rparr>"

definition overfull_game :: game where
  "overfull_game = \<lparr>n_games = 1, rows = 1, columns = 2, size_cells = 2, mines_n = [5],
        mines = [[[1, 1]]], numbers = [[[- 1, - 1]]],
        open_cells = [[[0, 0]]], flags = [[[0, 0]]], active_games = [True],
        won = [False], last_opened = [[[0, 0]]], last_flagged = [[[0, 0]]]\<rparr>"

text \<open>The game constructed with 3 hazards on a 1\<times>2 board.\<close>

definition crowded_game :: game where
  "crowded_game = \<lparr>n_games = 1, rows = 1, columns = 2, size_cells = 2, mines_n = [3],
        mines = [[[1, 1]]], numbers = [[[- 1, - 1]]],
        open_cells = [[[0, 0]]], flags = [[[0, 0]]], active_games = [True],
        won = [False], last_opened = [[[0, 0]]], last_flagged = [[[0, 0]]]\<rparr>"

text \<open>A request on the generated batch: reveal the top left cell of slot 0, nothing in slot 1.\<close>

definition generated_request :: boards where
  "generated_request = [[[1, 0], [0, 0]], [[0, 0], [0, 0]]]"


definition clear_draws :: "real list list list" where
  "clear_draws = [[[1/2, 1/4]]]"

text \<open>
  One 1\<times>2 board with the hazard in the left cell, whose slot has lost: nothing is revealed
  and the slot is no longer active.
\<close>

definition lost_game :: game where
  "lost_game = \<lparr>n_games = 1, rows = 1, columns = 2, size_cells = 2, mines_n = [1],
     mines = [[[1, 0]]], numbers = [[[- 1, 1]]],
     open_cells = [[[0, 0]]], flags = [[[0, 0]]],
     active_games = [False], won = [False],
     last_opened = [[[1, 0]]], last_flagged = [[[0, 0]]]\<rparr>"

text \<open>
  The example batch as an object: each per-cell array in a buffer of its own, the two
  flag arrays and the counts likewise.
\<close>

definition example_heap :: heap where
  "example_heap = \<lparr>cell_bufs = [mines example_game, numbers example_game, open_cells example_game,
                                 flags example_game, last_opened example_game,
                                 last_flagged example_game],
                    flag_bufs = [active_games example_game, won example_game],
                    count_bufs = [mines_n example_game]\<rparr>"

definition example_obj :: game_obj where
  "example_obj = \<lparr>n_obj = 2, rows_obj = 1, columns_obj = 2, size_obj = 2,
     mines_n_ref = \<lparr>buffer_id = 0, view_slots = [0, 1]\<rparr>,
     mines_ref = \<lparr>buffer_id = 0, view_slots = [0, 1]\<rparr>,
     numbers_ref = \<lparr>buffer_id = 1, view_slots = [0, 1]\<rparr>,
     open_cells_ref = \<lparr>buffer_id = 2, view_slots = [0, 1]\<rparr>,
     flags_ref = \<lparr>buffer_id = 3, view_slots = [0, 1]\<rparr>,
     active_games_ref = \<lparr>buffer_id = 0, view_slots = [0, 1]\<rparr>,
     won_ref = \<lparr>buffer_id = 1, view_slots = [0, 1]\<rparr>,
     last_opened_ref = \<lparr>buffer_id = 4, view_slots = [0, 1]\<rparr>,
     last_flagged_ref = \<lparr>buffer_id = 5, view_slots = [0, 1]\<rparr>\<rparr>"

text \<open>
  Slot 0 of the example object selected with the int key 0 (views), the heap after a move
  on that selection which reveals the right cell, and the heap and the object that the
  index array \<open>[1]\<close> gives (copies of slot 1).
\<close>

definition selected_obj :: game_obj where
  "selected_obj = \<lparr>n_obj = 0, rows_obj = 1, columns_obj = 2, size_obj = 2,
     mines_n_ref = \<lparr>buffer_id = 0, view_slots = [0]\<rparr>,
     mines_ref = \<lparr>buffer_id = 0, view_slots = [0]\<rparr>,
     numbers_ref = \<lparr>buffer_id = 1, view_slots = [0]\<rparr>,
     open_cells_ref = \<lparr>buffer_id = 2, view_slots = [0]\<rparr>,
     flags_ref = \<lparr>buffer_id = 3, view_slots = [0]\<rparr>,
     active_games_ref = \<lparr>buffer_id = 0, view_slots = [0]\<rparr>,
     won_ref = \<lparr>buffer_id = 1, view_slots = [0]\<rparr>,
     last_opened_ref = \<lparr>buffer_id = 4, view_slots = [0]\<rparr>,
     last_flagged_ref = \<lparr>buffer_id = 5, view_slots = [0]\<rparr>\<rparr>"

definition moved_heap :: heap where
  "moved_heap = \<lparr>cell_bufs = [[[[1, 0]], [[0, 1]]], [[[- 1, 1]], [[1, - 1]]],
                               [[[0, 1]], [[0, 0]]], [[[0, 0]], [[0, 0]]],
                               [[[0, 1]], [[0, 0]]], [[[0, 0]], [[0, 0]]]],
                  flag_bufs = [[False, True], [False, False], [True]],
                  count_bufs = [[1, 1]]\<rparr>"

definition copied_heap :: heap where
  "copied_heap = \<lparr>cell_bufs = [[[[1, 0]], [[0, 1]]], [[[- 1, 1]], [[1, - 1]]],
                                [[[0, 0]], [[0, 0]]], [[[0, 0]], [[0, 0]]],
                                [[[0, 0]], [[0, 0]]], [[[0, 0]], [[0, 0]]],
                                [[[0, 1]]], [[[1, - 1]]], [[[0, 0]]], [[[0, 0]]],
                                [[[0, 0]]], [[[0, 0]]]],
                   flag_bufs = [[True, True], [False, False], [True], [False]],
                   count_bufs = [[1, 1], [1]]\<rparr>"

definition copied_obj :: game_obj where
  "copied_obj = \<lparr>n_obj = 0, rows_obj = 1, columns_obj = 2, size_obj = 2,
     mines_n_ref = \<lparr>buffer_id = 1, view_slots = [0]\<rparr>,
     mines_ref = \<lparr>buffer_id = 6, view_slots = [0]\<rparr>,
     numbers_ref = \<lparr>buffer_id = 7, view_slots = [0]\<rparr>,
     open_cells_ref = \<lparr>buffer_id = 8, view_slots = [0]\<rparr>,
     flags_ref = \<lparr>buffer_id = 9, view_slots = [0]\<rparr>,
     active_games_ref = \<lparr>buffer_id = 2, view_slots = [0]\<rparr>,
     won_ref = \<lparr>buffer_id = 3, view_slots = [0]\<rparr>,
     last_opened_ref = \<lparr>buffer_id = 10, view_slots = [0]\<rparr>,
     last_flagged_ref = \<lparr>buffer_id = 11, view_slots = [0]\<rparr>\<rparr>"

text \<open>
  The earlier engine on a board of 3 rows and 5 columns with hazards at the flat positions
  5, 7 and 14, that is at \<open>(1, 0)\<close>, \<open>(1, 2)\<close> and \<open>(2, 4)\<close>; and on a 3\<times>3 board with one
  hazard in the last cell.
\<close>

definition lopsided_game :: legacy_game where
  "lopsided_game = \<lparr>n_l = 1, rows_l = 3, columns_l = 5, size_l = 15, mines_l = 3,
    fields_l = [[0, 0, 0, 0, 0, 1, 0, 1, 0, 0, 0, 0, 0, 0, 1]],
    grids = [[1, 2, 1, 1, 0, - 1, 2, - 1, 2, 1, 1, 2, 1, 2, - 1]],
    states = [[0, 0, 0, 0, 0, 0, 0, 0, 0, 0, 0, 0, 0, 0, 0]],
    visible_grids = [[0, 0, 0, 0, 0, 0, 0, 0, 0, 0, 0, 0, 0, 0, 0]],
    scores_l = [12], mines_scores = [3], active_grids = [True],
    won_l = [False], last_opened_l = [- 1]\<rparr>"

definition lopsided_opened :: legacy_game where
  "lopsided_opened = lopsided_game\<lparr>
       states := [[0, 0, 0, 1, 1, 0, 0, 0, 1, 1, 0, 0, 0, 1, 1]],
       visible_grids := [[0, 0, 0, 1, 0, 0, 0, 0, 2, 1, 0, 0, 0, 2, - 1]],
       scores_l := [6], active_grids := [True], won_l := [False]\<rparr>"

definition square_game :: legacy_game where
  "square_game = \<lparr>n_l = 1, rows_l = 3, columns_l = 3, size_l = 9, mines_l = 1,
    fields_l = [[0, 0, 0, 0, 0, 0, 0, 0, 1]],
    grids = [[0, 0, 0, 0, 1, 1, 0, 1, - 1]],
    states = [[0, 0, 0, 0, 0, 0, 0, 0, 0]],
    visible_grids = [[0, 0, 0, 0, 0, 0, 0, 0, 0]],
    scores_l = [8], mines_scores = [1], active_grids = [True],
    won_l = [False], last_opened_l = [- 1]\<rparr>"

section \<open>Masked indexing\<close>

lemma length_put [simp]: "length (put ms xs vs) = length xs"
  by (induction ms xs vs rule: put.induct) (auto split: list.splits)

lemma length_fill [simp]: "length (fill ms xs v) = length xs"
  by (induction ms xs v rule: fill.induct) auto

lemma count_true_simps [simp]:
  "count_true [] = 0"
  "count_true (m # ms) = (if m then Suc (count_true ms) else count_true ms)"
  by (simp_all add: count_true_def)

lemma rank_simps [simp]:
  "rank ms 0 = 0"
  "rank [] i = 0"
  "rank (m # ms) (Suc i) = (if m then Suc (rank ms i) else rank ms i)"
  by (simp_all add: rank_def)

lemma length_sel: "length ms = length xs \<Longrightarrow> length (sel ms xs) = count_true ms"
  by (induction ms xs rule: sel.induct) auto

lemma rank_less: "i < length ms \<Longrightarrow> ms ! i \<Longrightarrow> rank ms i < count_true ms"
proof (induction ms arbitrary: i)
  case Nil then show ?case by simp
next
  case (Cons m ms) then show ?case by (cases i) auto
qed

lemma rank_le: "rank ms i \<le> count_true ms"
proof (induction ms arbitrary: i)
  case Nil then show ?case by simp
next
  case (Cons m ms) then show ?case by (cases i) (auto simp: le_SucI)
qed

lemma nth_sel: "length ms = length xs \<Longrightarrow> i < length ms \<Longrightarrow> ms ! i \<Longrightarrow> sel ms xs ! rank ms i = xs ! i"
proof (induction ms xs arbitrary: i rule: sel.induct)
  case (1 m ms x xs) then show ?case by (cases i) auto
qed auto

lemma nth_put: "length ms = length xs \<Longrightarrow> length vs = count_true ms \<Longrightarrow> i < length xs \<Longrightarrow>
  put ms xs vs ! i = (if ms ! i then vs ! rank ms i else xs ! i)"
proof (induction ms xs vs arbitrary: i rule: put.induct)
  case (1 m ms x xs vs) then show ?case by (cases i; cases vs) auto
qed auto

lemma nth_put_False: "length ms = length xs \<Longrightarrow> i < length xs \<Longrightarrow> \<not> ms ! i \<Longrightarrow>
  put ms xs vs ! i = xs ! i"
proof (induction ms xs vs arbitrary: i rule: put.induct)
  case (1 m ms x xs vs) then show ?case by (cases i; cases vs) auto
qed auto

lemma count_true_0_nth: "count_true ms = 0 \<Longrightarrow> i < length ms \<Longrightarrow> \<not> ms ! i"
proof (induction ms arbitrary: i)
  case Nil then show ?case by simp
next
  case (Cons m ms) then show ?case by (cases i) (auto split: if_splits)
qed

lemma sel_no_true: "count_true ms = 0 \<Longrightarrow> sel ms xs = []"
  by (induction ms xs rule: sel.induct) (auto split: if_splits)

lemma put_no_true: "count_true ms = 0 \<Longrightarrow> put ms xs vs = xs"
  by (induction ms xs vs rule: put.induct) (auto split: if_splits)


lemma nth_fill: "length ms = length xs \<Longrightarrow> i < length xs \<Longrightarrow>
  fill ms xs v ! i = (if ms ! i then v else xs ! i)"
proof (induction ms xs v arbitrary: i rule: fill.induct)
  case (1 m ms x xs v) then show ?case by (cases i) auto
qed auto

lemma sel_put_mask: "length c = count_true m \<Longrightarrow> length xs = length m \<Longrightarrow>
  sel (put m m c) xs = sel c (sel m xs)"
proof (induction m arbitrary: c xs)
  case Nil then show ?case by simp
next
  case (Cons a m) then show ?case by (cases xs; cases c) auto
qed

lemma count_true_put_mask: "length c = count_true m \<Longrightarrow> count_true (put m m c) = count_true c"
proof (induction m arbitrary: c)
  case Nil then show ?case by simp
next
  case (Cons a m) then show ?case by (cases c) auto
qed

lemma rank_put_mask: "length c = count_true m \<Longrightarrow> i < length m \<Longrightarrow> m ! i \<Longrightarrow>
  rank (put m m c) i = rank c (rank m i)"
proof (induction m arbitrary: c i)
  case Nil then show ?case by simp
next
  case (Cons a m) then show ?case by (cases c; cases i) auto
qed

section \<open>Boards cell by cell\<close>

lemma shaped_nth: "shaped h w b \<Longrightarrow> r < h \<Longrightarrow> length (b ! r) = w"
  by (auto simp: shaped_def list_all_length)

lemma shaped_length: "shaped h w b \<Longrightarrow> length b = h"
  by (simp add: shaped_def)

lemma shaped_cellwise: "shaped h w a \<Longrightarrow> shaped h w b \<Longrightarrow> shaped h w (cellwise f a b)"
  by (auto simp: shaped_def cellwise_def list_all_length)

lemma cell_cellwise: "shaped h w a \<Longrightarrow> shaped h w b \<Longrightarrow> r < h \<Longrightarrow> c < w \<Longrightarrow>
  cell (cellwise f a b) r c = f (cell a r c) (cell b r c)"
  by (auto simp: shaped_def cellwise_def cell_def list_all_length)



lemma any_cell_iff: "shaped h w a \<Longrightarrow> any_cell a \<longleftrightarrow> (\<exists>r<h. \<exists>c<w. cell a r c \<noteq> 0)"
  unfolding any_cell_def cell_def shaped_def list_ex_length list_all_length
  by (metis)

lemma all_cell_iff: "shaped h w a \<Longrightarrow> all_cell a \<longleftrightarrow> (\<forall>r<h. \<forall>c<w. cell a r c \<noteq> 0)"
  unfolding all_cell_def cell_def shaped_def list_all_length
  by (metis)

lemma board_eqI: "shaped h w a \<Longrightarrow> shaped h w b \<Longrightarrow>
  (\<And>r c. r < h \<Longrightarrow> c < w \<Longrightarrow> cell a r c = cell b r c) \<Longrightarrow> a = b"
  unfolding cell_def shaped_def list_all_length
  by (metis nth_equalityI)

lemma binary_cell: "shaped h w a \<Longrightarrow> binary a \<Longrightarrow> r < h \<Longrightarrow> c < w \<Longrightarrow> cell a r c = 0 \<or> cell a r c = 1"
  unfolding cell_def shaped_def binary_def list_all_length by metis

lemma binaryI: "shaped h w a \<Longrightarrow> (\<And>r c. r < h \<Longrightarrow> c < w \<Longrightarrow> cell a r c = 0 \<or> cell a r c = 1) \<Longrightarrow> binary a"
  unfolding cell_def shaped_def binary_def list_all_length by metis

section \<open>What one move does to one slot\<close>

lemma boards_ok_nth: "boards_ok g a \<Longrightarrow> i < length (active_games g) \<Longrightarrow> shaped (rows g) (columns g) (a ! i)"
  by (simp add: boards_ok_def list_all_length)

lemma wf_request_nth: "wf_request g a \<Longrightarrow> k < count_true (active_games g) \<Longrightarrow> shaped (rows g) (columns g) (a ! k)"
  by (simp add: wf_request_def list_all_length)

text \<open>The components of a successful move, slot by slot.\<close>

lemma move_frame:
  assumes "move g a b = Inr (g', correct)"
  shows "rows g' = rows g" "columns g' = columns g" "mines g' = mines g" "numbers g' = numbers g"
    "mines_n g' = mines_n g" "n_games g' = n_games g" "size_cells g' = size_cells g"
  using assms by (auto simp: move_def Let_def split: if_splits)

lemma move_lengths:
  assumes "move g a b = Inr (g', correct)"
  shows "length (open_cells g') = length (open_cells g)" "length (flags g') = length (flags g)"
    "length (active_games g') = length (active_games g)"
    "length (last_opened g') = length (last_opened g)"
    "length (last_flagged g') = length (last_flagged g)"
  using assms by (auto simp: move_def Let_def split: if_splits)

lemma nth_put_mask: "length c = count_true m \<Longrightarrow> i < length m \<Longrightarrow>
  put m m c ! i = (m ! i \<and> c ! rank m i)"
  by (simp add: nth_put)

lemma masked_update_nth_full:
  assumes c: "length c = count_true m" and xs: "length xs = length m"
    and t: "length t = length c" and i: "i < length m"
  shows "put (put m m c) xs (map2 f (sel (put m m c) xs) (sel c t)) ! i =
         (if m ! i \<and> c ! rank m i then f (xs ! i) (t ! rank m i) else xs ! i)"
proof -
  let ?m1 = "put m m c"
  let ?vs = "map2 f (sel ?m1 xs) (sel c t)"
  have l1: "length ?m1 = length xs" using xs by simp
  have ct: "count_true ?m1 = count_true c" using c by (rule count_true_put_mask)
  have ls: "length (sel ?m1 xs) = count_true c" using l1 ct by (simp add: length_sel)
  have lt: "length (sel c t) = count_true c" using t by (simp add: length_sel)
  have lv: "length ?vs = count_true ?m1" using ls lt ct by simp
  have n: "put ?m1 xs ?vs ! i = (if ?m1 ! i then ?vs ! rank ?m1 i else xs ! i)"
    using l1 lv i xs by (simp add: nth_put)
  show ?thesis
  proof (cases "m ! i \<and> c ! rank m i")
    case True
    then have a1: "?m1 ! i" using c i by (simp add: nth_put_mask)
    have r: "rank ?m1 i = rank c (rank m i)" using c i True by (simp add: rank_put_mask)
    have k: "rank m i < length c" using c i True by (simp add: rank_less)
    have rl: "rank ?m1 i < count_true c" using ct rank_less[of i ?m1] a1 i by simp
    have s1: "sel ?m1 xs ! rank ?m1 i = xs ! i" using l1 i a1 xs by (simp add: nth_sel)
    have s2: "sel c t ! rank c (rank m i) = t ! rank m i" using t k True by (simp add: nth_sel)
    have "?vs ! rank ?m1 i = f (xs ! i) (t ! rank m i)"
      using rl ls lt s1 s2 r by simp
    with n a1 True show ?thesis by simp
  next
    case False
    then have "\<not> ?m1 ! i" using c i by (simp add: nth_put_mask)
    with n have "put ?m1 xs ?vs ! i = xs ! i" by simp
    with False show ?thesis by auto
  qed
qed

lemma masked_update_nth:
  assumes c: "length c = count_true m" and xs: "length xs = length m"
    and t: "length t = length c \<or> count_true m = 0" and i: "i < length m"
  shows "put (put m m c) xs (map2 f (sel (put m m c) xs) (sel c t)) ! i =
         (if m ! i \<and> c ! rank m i then f (xs ! i) (t ! rank m i) else xs ! i)"
proof (cases "count_true m = 0")
  case True
  then have "\<not> m ! i" using i by (rule count_true_0_nth)
  moreover have "put m m c = m" using True by (rule put_no_true)
  ultimately show ?thesis using True by (simp add: put_no_true)
next
  case False
  with t have "length t = length c" by simp
  from masked_update_nth_full[OF c xs this i] show ?thesis .
qed

text \<open>What an \<^verbatim>\<open>int8\<close> array keeps of a value.\<close>

lemma int8_small: "- 128 \<le> v \<Longrightarrow> v \<le> 127 \<Longrightarrow> int8 v = v"
  by (simp add: int8_def)

lemma int8_bit [simp]: "int8 0 = 0" "int8 1 = 1"
  by (simp_all add: int8_def)

lemma int8_mod: "int8 v mod 256 = v mod 256"
proof -
  have "int8 v mod 256 = ((v + 128) mod 256 + (- 128)) mod 256" by (simp add: int8_def)
  also have "\<dots> = (v + 128 + (- 128)) mod 256" by (rule mod_add_left_eq)
  finally show ?thesis by simp
qed

lemma int8_cong: "a mod 256 = b mod 256 \<Longrightarrow> int8 a = int8 b"
proof -
  assume e: "a mod 256 = b mod 256"
  have "(a + 128) mod 256 = (a mod 256 + 128) mod 256" by (simp add: mod_add_left_eq)
  also have "\<dots> = (b + 128) mod 256" unfolding e by (simp add: mod_add_left_eq)
  finally show ?thesis by (simp add: int8_def)
qed

lemma int8_or_absorb: "int8 (int8 (x OR t) OR t) = int8 (x OR t)"
proof (rule int8_cong)
  have "take_bit 8 (int8 (x OR t) OR t) = take_bit 8 (int8 (x OR t)) OR take_bit 8 t"
    by (simp add: take_bit_or)
  also have "take_bit 8 (int8 (x OR t)) = take_bit 8 (x OR t)"
    using int8_mod[of "x OR t"] by (simp add: take_bit_eq_mod)
  also have "take_bit 8 (x OR t) OR take_bit 8 t = take_bit 8 ((x OR t) OR t)"
    by (simp add: take_bit_or)
  also have "(x OR t) OR t = x OR t" by (simp add: or.assoc)
  finally show "(int8 (x OR t) OR t) mod 256 = (x OR t) mod 256"
    by (simp add: take_bit_eq_mod)
qed

lemma shaped_store8: "shaped h w b \<Longrightarrow> shaped h w (store8 b)"
  by (auto simp: shaped_def store8_def list_all_length)

lemma cell_store8: "shaped h w b \<Longrightarrow> r < h \<Longrightarrow> c < w \<Longrightarrow> cell (store8 b) r c = int8 (cell b r c)"
  by (auto simp: shaped_def store8_def cell_def list_all_length)

text \<open>The assignments of a successful move, one equation per line of the source.\<close>

lemma move_unfold:
  assumes "move g a b = Inr (g', correct)"
  defines "to_open \<equiv> default_open g a"
  defines "to_flag \<equiv> default_flag (default_open g a) b"
  defines "active1 \<equiv> put (active_games g) (active_games g) correct"
  shows "length to_open = count_true (active_games g) \<or>
         (length to_open = 1 \<and> count_true (active_games g) = 0)"
    and "length to_flag = count_true (active_games g) \<or>
         (length to_flag = 1 \<and> count_true (active_games g) = 0)"
    and "correct = map2 (\<and>)
      (map (\<lambda>b. \<not> any_cell b) (map2 (cellwise (*)) (sel (active_games g) (mines g)) to_open))
      (map (\<lambda>b. \<not> any_cell b) (map2 (cellwise (*)) (map one_minus (sel (active_games g) (mines g))) to_flag))"
    and "open_cells g' = put active1 (open_cells g)
           (map2 (\<lambda>x t. store8 (cellwise (OR) x t)) (sel active1 (open_cells g)) (sel correct to_open))"
    and "flags g' = put active1 (flags g)
           (map2 (\<lambda>x t. store8 (cellwise (OR) x t)) (sel active1 (flags g)) (sel correct to_flag))"
    and "won g' = map all_cell (map2 (cellwise (+)) (open_cells g') (mines g))"
    and "active_games g' = fill (won g') active1 False"
    and "last_opened g' = put (active_games g) (last_opened g) (map store8 to_open)"
    and "last_flagged g' = put (active_games g) (last_flagged g) (map store8 to_flag)"
  using assms by (auto simp: move_def Let_def split: if_splits)

text \<open>A successful move with an active slot received one board per active slot.\<close>

lemma move_request_lengths:
  assumes m: "move g a b = Inr (g', correct)" and k: "count_true (active_games g) \<noteq> 0"
  shows "length (default_open g a) = count_true (active_games g)"
    and "length (default_flag (default_open g a) b) = count_true (active_games g)"
  using move_unfold(1,2)[OF m] k by auto

lemma active_count: "i < length ms \<Longrightarrow> ms ! i \<Longrightarrow> count_true ms \<noteq> 0"
  using rank_less[of i ms] by auto

lemma move_correct_length:
  assumes m: "move g a b = Inr (g', correct)"
    and len: "length (mines g) = length (active_games g)"
  shows "length correct = count_true (active_games g)"
proof (cases "count_true (active_games g) = 0")
  case True
  then show ?thesis by (subst move_unfold(3)[OF m]) (simp add: sel_no_true)
next
  case False
  show ?thesis
    by (subst move_unfold(3)[OF m]) (simp add: move_request_lengths[OF m False] length_sel len)
qed

lemma move_correct:
  assumes m: "move g a b = Inr (g', correct)"
    and len: "length (mines g) = length (active_games g)"
    and i: "i < length (active_games g)" "active_games g ! i"
  defines "k \<equiv> rank (active_games g) i"
  shows "correct ! k \<longleftrightarrow>
          \<not> any_cell (cellwise (*) (mines g ! i) (default_open g a ! k)) \<and>
          \<not> any_cell (cellwise (*) (one_minus (mines g ! i)) (default_flag (default_open g a) b ! k))"
proof -
  note u = move_unfold[OF m]
  note l = move_request_lengths[OF m active_count[OF i]]
  have ls: "length (sel (active_games g) (mines g)) = count_true (active_games g)"
    using len by (simp add: length_sel)
  have k: "k < count_true (active_games g)" unfolding k_def using i by (rule rank_less)
  have s: "sel (active_games g) (mines g) ! k = mines g ! i"
    unfolding k_def using len i by (simp add: nth_sel)
  show ?thesis
    by (subst u(3)) (simp add: l ls k s)
qed

lemma move_open_cells:
  assumes m: "move g a b = Inr (g', correct)"
    and len: "length (open_cells g) = length (active_games g)" "length (mines g) = length (active_games g)"
    and i: "i < length (active_games g)"
  shows "open_cells g' ! i =
    (if active_games g ! i \<and> correct ! rank (active_games g) i
     then store8 (cellwise (OR) (open_cells g ! i) (default_open g a ! rank (active_games g) i))
     else open_cells g ! i)"
proof -
  have t: "length (default_open g a) = length correct \<or> count_true (active_games g) = 0"
    using move_unfold(1)[OF m] move_correct_length[OF m len(2)] by auto
  show ?thesis
    by (subst move_unfold(4)[OF m])
       (rule masked_update_nth[OF move_correct_length[OF m len(2)] len(1) t i])
qed

lemma move_flags:
  assumes m: "move g a b = Inr (g', correct)"
    and len: "length (flags g) = length (active_games g)" "length (mines g) = length (active_games g)"
    and i: "i < length (active_games g)"
  shows "flags g' ! i =
    (if active_games g ! i \<and> correct ! rank (active_games g) i
     then store8 (cellwise (OR) (flags g ! i) (default_flag (default_open g a) b ! rank (active_games g) i))
     else flags g ! i)"
proof -
  have t: "length (default_flag (default_open g a) b) = length correct \<or> count_true (active_games g) = 0"
    using move_unfold(2)[OF m] move_correct_length[OF m len(2)] by auto
  show ?thesis
    by (subst move_unfold(5)[OF m])
       (rule masked_update_nth[OF move_correct_length[OF m len(2)] len(1) t i])
qed

lemma move_won_length:
  assumes m: "move g a b = Inr (g', correct)"
    and len: "length (open_cells g) = length (active_games g)" "length (mines g) = length (active_games g)"
  shows "length (won g') = length (active_games g)"
  by (subst move_unfold(6)[OF m]) (simp add: move_lengths(1)[OF m] len)

lemma move_won:
  assumes m: "move g a b = Inr (g', correct)"
    and len: "length (open_cells g) = length (active_games g)" "length (mines g) = length (active_games g)"
    and i: "i < length (active_games g)"
  shows "won g' ! i = all_cell (cellwise (+) (open_cells g' ! i) (mines g ! i))"
  by (subst move_unfold(6)[OF m]) (simp add: move_lengths(1)[OF m] len i)

lemma move_active:
  assumes m: "move g a b = Inr (g', correct)"
    and len: "length (open_cells g) = length (active_games g)" "length (mines g) = length (active_games g)"
    and i: "i < length (active_games g)"
  shows "active_games g' ! i \<longleftrightarrow>
     active_games g ! i \<and> correct ! rank (active_games g) i \<and> \<not> won g' ! i"
  by (subst move_unfold(7)[OF m])
     (auto simp: nth_fill nth_put_mask move_won_length[OF m len] move_correct_length[OF m len(2)] i)
lemma or_int_nonzero: "(x OR y) \<noteq> 0 \<longleftrightarrow> x \<noteq> 0 \<or> y \<noteq> (0::int)"
  by (simp add: or_eq_0_iff)

section \<open>Judging and applying a move\<close>

lemma default_some [simp]: "default_open g (Some t) = t" "default_flag t (Some f) = f"
  by (simp_all add: default_open_def default_flag_def)



text \<open>
  The theorem at slot 0 of the example batch: the request reveals its safe cell and marks
  its hazard.
\<close>

lemma example_game_wf: "wf_game example_game"
  by (simp add: wf_game_def boards_ok_def example_game_def shaped_def binary_def)

lemma example_request_wf: "wf_request example_game example_request"
  by (simp add: wf_request_def example_game_def example_request_def shaped_def count_true_def)

lemma example_flag_wf: "wf_request example_game (zeros_like example_request)"
  by (simp add: wf_request_def example_game_def example_request_def shaped_def count_true_def zeros_like_def)



section \<open>Hazards stay hidden; coverage decides the win flag\<close>

lemma shaped_set_cell: "shaped h w b \<Longrightarrow> shaped h w (set_cell b r c v)"
proof -
  assume s: "shaped h w b"
  have "length (b[r := (b ! r)[c := v]] ! n) = w" if "n < length b" for n
    using s that by (cases "n = r") (auto simp: shaped_def list_all_length)
  with s show ?thesis by (simp add: shaped_def set_cell_def list_all_length)
qed

lemma shaped_zeros_like: "list_all (shaped h w) a \<Longrightarrow> list_all (shaped h w) (zeros_like a)"
  by (auto simp: shaped_def zeros_like_def list_all_length)

lemma length_zeros_like [simp]: "length (zeros_like a) = length a"
  by (simp add: zeros_like_def)

lemma open_zero_is_move:
  assumes "open_zero g rnd = Inr (g', t)"
  shows "\<exists>correct. move g (Some t) None = Inr (g', correct)"
  using assms by (auto simp: open_zero_def Let_def split: if_splits sum.splits)

lemma open_zero_request_shaped:
  assumes oz: "open_zero g rnd = Inr (g', t)"
    and m: "list_all (shaped (rows g) (columns g)) (mines g)"
  shows "list_all (shaped (rows g) (columns g)) t"
proof -
  have "t = open_zero_request g rnd"
    using oz by (auto simp: open_zero_def Let_def split: if_splits sum.splits)
  then obtain hw where t: "t = map2 (\<lambda>b (h, w). set_cell b h w 1) (zeros_like (mines g)) hw"
    unfolding open_zero_request_def Let_def by blast
  have z: "list_all (shaped (rows g) (columns g)) (zeros_like (mines g))"
    using m by (rule shaped_zeros_like)
  show ?thesis unfolding t using z
    by (auto simp: list_all_length shaped_set_cell split: prod.splits)
qed

lemma wf_request_shaped: "wf_request g a \<Longrightarrow> list_all (shaped (rows g) (columns g)) a"
  by (simp add: wf_request_def)

text \<open>The request board that an active slot of a successful move reads.\<close>

lemma move_request_nth:
  assumes m: "move g a b = Inr (g', correct)"
    and req: "list_all (shaped (rows g) (columns g)) (default_open g a)"
    and i: "i < length (active_games g)" "active_games g ! i"
  shows "shaped (rows g) (columns g) (default_open g a ! rank (active_games g) i)"
proof -
  have "rank (active_games g) i < count_true (active_games g)" using i by (rule rank_less)
  then have "rank (active_games g) i < length (default_open g a)"
    using move_request_lengths(1)[OF m active_count[OF i]] by simp
  with req show ?thesis by (simp add: list_all_length)
qed

text \<open>The revealed board of a slot after a move, and why adding the hazards decides coverage.\<close>

lemma move_open_shaped:
  assumes wf: "wf_game g" and req: "list_all (shaped (rows g) (columns g)) (default_open g a)"
    and m: "move g a b = Inr (g', correct)" and i: "i < length (active_games g)"
  shows "shaped (rows g) (columns g) (open_cells g' ! i)"
proof -
  have lm: "length (mines g) = length (active_games g)"
    and lop: "length (open_cells g) = length (active_games g)"
    using wf by (simp_all add: wf_game_def boards_ok_def)
  have so: "shaped (rows g) (columns g) (open_cells g ! i)"
    using wf i by (simp add: wf_game_def boards_ok_nth)
  show ?thesis
  proof (cases "active_games g ! i \<and> correct ! rank (active_games g) i")
    case True
    then have "shaped (rows g) (columns g) (default_open g a ! rank (active_games g) i)"
      using move_request_nth[OF m req i] by simp
    with so True show ?thesis
      using move_open_cells[OF m lop lm i] by (simp add: shaped_cellwise shaped_store8)
  next
    case False
    with so show ?thesis using move_open_cells[OF m lop lm i] by auto
  qed
qed

lemma move_hazard_cells_kept:
  assumes wf: "wf_game g" and req: "list_all (shaped (rows g) (columns g)) (default_open g a)"
    and m: "move g a b = Inr (g', correct)" and i: "i < length (active_games g)"
    and rc: "r < rows g" "c < columns g" and hz: "cell (mines g ! i) r c \<noteq> 0"
  shows "cell (open_cells g' ! i) r c = cell (open_cells g ! i) r c"
proof -
  have lm: "length (mines g) = length (active_games g)"
    and lop: "length (open_cells g) = length (active_games g)"
    using wf by (simp_all add: wf_game_def boards_ok_def)
  have so: "shaped (rows g) (columns g) (open_cells g ! i)"
    and sm: "shaped (rows g) (columns g) (mines g ! i)"
    using wf i by (simp_all add: wf_game_def boards_ok_nth)
  have bo: "binary (open_cells g ! i)"
    using wf i lop by (simp add: wf_game_def list_all_length)
  show ?thesis
  proof (cases "active_games g ! i \<and> correct ! rank (active_games g) i")
    case True
    let ?k = "rank (active_games g) i"
    have st: "shaped (rows g) (columns g) (default_open g a ! ?k)"
      using move_request_nth[OF m req i] True by simp
    have "\<not> any_cell (cellwise (*) (mines g ! i) (default_open g a ! ?k))"
      using move_correct[OF m lm i] True by simp
    then have "cell (mines g ! i) r c * cell (default_open g a ! ?k) r c = 0"
      using rc by (simp add: any_cell_iff[OF shaped_cellwise[OF sm st]] cell_cellwise[OF sm st])
    with hz have z: "cell (default_open g a ! ?k) r c = 0" by simp
    have "open_cells g' ! i = store8 (cellwise (OR) (open_cells g ! i) (default_open g a ! ?k))"
      using True move_open_cells[OF m lop lm i] by simp
    then have "cell (open_cells g' ! i) r c = int8 (cell (open_cells g ! i) r c)"
      using z by (simp add: cell_store8[OF shaped_cellwise[OF so st] rc] cell_cellwise[OF so st rc])
    with binary_cell[OF so bo rc] show ?thesis by auto
  next
    case False
    then show ?thesis using move_open_cells[OF m lop lm i] by auto
  qed
qed

lemma move_won_covered:
  assumes wf: "wf_game g" and req: "list_all (shaped (rows g) (columns g)) (default_open g a)"
    and m: "move g a b = Inr (g', correct)" and i: "i < length (active_games g)"
  shows "won g' ! i \<longleftrightarrow> covered g' i"
proof -
  have lm: "length (mines g) = length (active_games g)"
    and lop: "length (open_cells g) = length (active_games g)"
    using wf by (simp_all add: wf_game_def boards_ok_def)
  have so: "shaped (rows g) (columns g) (open_cells g ! i)"
    and sm: "shaped (rows g) (columns g) (mines g ! i)"
    using wf i by (simp_all add: wf_game_def boards_ok_nth)
  have so': "shaped (rows g) (columns g) (open_cells g' ! i)"
    using wf req m i by (rule move_open_shaped)
  have bm: "binary (mines g ! i)" and bo: "binary (open_cells g ! i)"
    using wf i lm lop by (simp_all add: wf_game_def list_all_length)
  have sum: "cell (open_cells g' ! i) r c + cell (mines g ! i) r c \<noteq> 0 \<longleftrightarrow>
             cell (open_cells g' ! i) r c \<noteq> 0 \<or> cell (mines g ! i) r c \<noteq> 0"
    if rc: "r < rows g" "c < columns g" for r c
  proof (cases "cell (mines g ! i) r c = 0")
    case True
    then show ?thesis by simp
  next
    case False
    then have "cell (mines g ! i) r c = 1" using binary_cell[OF sm bm rc] by simp
    moreover have "cell (open_cells g' ! i) r c = cell (open_cells g ! i) r c"
      using wf req m i rc False by (rule move_hazard_cells_kept)
    moreover have "cell (open_cells g ! i) r c = 0 \<or> cell (open_cells g ! i) r c = 1"
      using binary_cell[OF so bo rc] .
    ultimately show ?thesis by auto
  qed
  have "won g' ! i \<longleftrightarrow> all_cell (cellwise (+) (open_cells g' ! i) (mines g ! i))"
    using move_won[OF m lop lm i] .
  also have "\<dots> \<longleftrightarrow> (\<forall>r<rows g. \<forall>c<columns g. cell (open_cells g' ! i) r c + cell (mines g ! i) r c \<noteq> 0)"
    by (simp add: all_cell_iff[OF shaped_cellwise[OF so' sm]] cell_cellwise[OF so' sm])
  also have "\<dots> \<longleftrightarrow> covered g' i"
    unfolding covered_def using sum by (simp add: move_frame[OF m])
  finally show ?thesis .
qed

lemma move_won_inactive:
  assumes wf: "wf_game g"
    and m: "move g a b = Inr (g', correct)" and i: "i < length (active_games g)"
  shows "won g' ! i \<longrightarrow> \<not> active_games g' ! i"
proof -
  have lm: "length (mines g) = length (active_games g)"
    and lop: "length (open_cells g) = length (active_games g)"
    using wf by (simp_all add: wf_game_def boards_ok_def)
  show ?thesis using move_active[OF m lop lm i] by simp
qed

section \<open>The win flag after a move\<close>

lemmas eval_simps = move_def open_zero_def open_zero_request_def default_open_def default_flag_def
  count_true_def zeros_like_def Let_def cellwise_def one_minus_def any_cell_def all_cell_def
  argmax_def set_cell_def store8_def int8_def

lemma example_move:
  "move example_game (Some example_request) None =
     Inr (example_game\<lparr>last_opened := [[[0, 1]], [[0, 1]]], open_cells := [[[0, 1]], [[0, 0]]],
            active_games := [False, False], won := [True, False]\<rparr>, [True, False])"
  by (simp add: example_game_def example_request_def eval_simps)

lemma example_open_zero:
  "open_zero example_game example_draws =
     Inr (example_game\<lparr>last_opened := [[[0, 1]], [[1, 0]]], open_cells := [[[0, 1]], [[1, 0]]],
            active_games := [False, False], won := [True, True]\<rparr>, [[[0, 1]], [[1, 0]]])"
  by (simp add: example_game_def example_draws_def eval_simps)

lemma mined_open_zero:
  "open_zero mined_game example_draws =
     Inr (mined_game\<lparr>last_opened := [[[1, 0]]], active_games := [False], won := [True]\<rparr>,
          [[[1, 0]]])"
  by (simp add: mined_game_def example_draws_def eval_simps)

lemma lost_open_zero:
  "open_zero lost_game clear_draws = Inr (lost_game, [[[0, 1]]])"
  by (simp add: lost_game_def clear_draws_def eval_simps)

lemma lost_game_wf: "wf_game lost_game"
  by (simp add: wf_game_def boards_ok_def lost_game_def shaped_def binary_def)

lemma mined_game_wf: "wf_game mined_game"
  by (simp add: wf_game_def boards_ok_def mined_game_def shaped_def binary_def)

text \<open>
  Claim C2. Whatever slot \<open>i\<close> of the batch is looked at after a call of \<^verbatim>\<open>move\<close> that
  returns, moved or not, its win flag is set exactly when every cell of its board is
  revealed or a hazard, and a slot whose win flag is set is inactive. The same holds after
  every call of \<^verbatim>\<open>open_zero\<close> that returns, whose only change of state is a call of
  \<^verbatim>\<open>move\<close>; that includes the call on a batch of one slot that is no longer active, where
  nothing is moved and the flag is recomputed all the same.
\<close>

theorem won_recomputed_for_every_slot:
  assumes wf: "wf_game g" and i: "i < length (active_games g)"
  shows "(\<forall>g' correct. list_all (shaped (rows g) (columns g)) (default_open g a) \<longrightarrow>
            move g a b = Inr (g', correct) \<longrightarrow>
            (won g' ! i \<longleftrightarrow> covered g' i) \<and> (won g' ! i \<longrightarrow> \<not> active_games g' ! i)) \<and>
         (\<forall>g' t. open_zero g rnd = Inr (g', t) \<longrightarrow>
            (won g' ! i \<longleftrightarrow> covered g' i) \<and> (won g' ! i \<longrightarrow> \<not> active_games g' ! i))"
proof (intro conjI allI impI)
  fix g' correct
  assume req: "list_all (shaped (rows g) (columns g)) (default_open g a)"
    and m: "move g a b = Inr (g', correct)"
  show "won g' ! i \<longleftrightarrow> covered g' i" using wf req m i by (rule move_won_covered)
  show "won g' ! i \<Longrightarrow> \<not> active_games g' ! i" using move_won_inactive[OF wf m i] by simp
next
  fix g' t
  assume oz: "open_zero g rnd = Inr (g', t)"
  then obtain correct where m: "move g (Some t) None = Inr (g', correct)"
    using open_zero_is_move by blast
  have "list_all (shaped (rows g) (columns g)) t"
    using oz wf by (auto intro: open_zero_request_shaped simp: wf_game_def boards_ok_def)
  then have req: "list_all (shaped (rows g) (columns g)) (default_open g (Some t))"
    by (simp add: default_open_def)
  show "won g' ! i \<longleftrightarrow> covered g' i" using wf req m i by (rule move_won_covered)
  show "won g' ! i \<Longrightarrow> \<not> active_games g' ! i" using move_won_inactive[OF wf m i] by simp
qed

text \<open>
  The theorem at slot 0 of the example batch: the slot is covered and won after the move
  that reveals its only safe cell, and after \<^verbatim>\<open>open_zero\<close>. And at the only slot of a batch
  that has lost: \<^verbatim>\<open>open_zero\<close> returns, the slot is not moved, and its flag is recomputed
  as not won.
\<close>

theorem won_recomputed_for_every_slot_witness:
  "wf_game example_game \<and> (0::nat) < length (active_games example_game) \<and>
   list_all (shaped (rows example_game) (columns example_game))
     (default_open example_game (Some example_request)) \<and>
   (\<exists>g' correct. move example_game (Some example_request) None = Inr (g', correct) \<and>
      (won g' ! 0 \<longleftrightarrow> covered g' 0) \<and> (won g' ! 0 \<longrightarrow> \<not> active_games g' ! 0) \<and> won g' ! 0) \<and>
   (\<exists>g' t. open_zero example_game example_draws = Inr (g', t) \<and>
      (won g' ! 0 \<longleftrightarrow> covered g' 0) \<and> (won g' ! 0 \<longrightarrow> \<not> active_games g' ! 0) \<and> won g' ! 0) \<and>
   wf_game lost_game \<and> (0::nat) < length (active_games lost_game) \<and> \<not> active_games lost_game ! 0 \<and>
   (\<exists>g' t. open_zero lost_game clear_draws = Inr (g', t) \<and>
      (won g' ! 0 \<longleftrightarrow> covered g' 0) \<and> (won g' ! 0 \<longrightarrow> \<not> active_games g' ! 0) \<and> \<not> won g' ! 0)"
proof -
  have i: "(0::nat) < length (active_games example_game)" by (simp add: example_game_def)
  have req: "list_all (shaped (rows example_game) (columns example_game))
     (default_open example_game (Some example_request))"
    using example_request_wf by (simp add: default_open_def wf_request_def)
  note t = won_recomputed_for_every_slot[OF example_game_wf i,
      of "Some example_request" None example_draws]
  from t req example_move have 1: "\<exists>g' correct. move example_game (Some example_request) None = Inr (g', correct) \<and>
      (won g' ! 0 \<longleftrightarrow> covered g' 0) \<and> (won g' ! 0 \<longrightarrow> \<not> active_games g' ! 0) \<and> won g' ! 0"
    by simp
  from t example_open_zero have 2: "\<exists>g' t. open_zero example_game example_draws = Inr (g', t) \<and>
      (won g' ! 0 \<longleftrightarrow> covered g' 0) \<and> (won g' ! 0 \<longrightarrow> \<not> active_games g' ! 0) \<and> won g' ! 0"
    by simp
  have j: "(0::nat) < length (active_games lost_game)" "\<not> active_games lost_game ! 0"
    by (simp_all add: lost_game_def)
  note u = won_recomputed_for_every_slot[OF lost_game_wf j(1), of None None clear_draws]
  have nw: "\<not> won lost_game ! 0" by (simp add: lost_game_def)
  from u lost_open_zero nw have 3: "\<exists>g' t. open_zero lost_game clear_draws = Inr (g', t) \<and>
      (won g' ! 0 \<longleftrightarrow> covered g' 0) \<and> (won g' ! 0 \<longrightarrow> \<not> active_games g' ! 0) \<and> \<not> won g' ! 0"
    by simp
  from example_game_wf i req 1 2 lost_game_wf j 3 show ?thesis by blast
qed

section \<open>Opening a minimum cell never reveals a hazard\<close>

text \<open>
  After \<^verbatim>\<open>open_zero\<close> of the engine, whatever cell it chose and whatever the board (fully
  mined, or without a zero), every hazard cell holds the revealed value it held before the
  call: the chosen cell goes through the judgement of \<^verbatim>\<open>move\<close>, which merges nothing into
  a slot whose request touches a hazard.
\<close>

theorem open_zero_never_reveals_hazard:
  assumes wf: "wf_game g" and oz: "open_zero g rnd = Inr (g', t)"
    and i: "i < length (active_games g)" and rc: "r < rows g" "c < columns g"
    and hz: "cell (mines g ! i) r c \<noteq> 0"
  shows "cell (open_cells g' ! i) r c = cell (open_cells g ! i) r c"
proof -
  obtain correct where m: "move g (Some t) None = Inr (g', correct)"
    using oz open_zero_is_move by blast
  have "list_all (shaped (rows g) (columns g)) t"
    using oz wf by (auto intro: open_zero_request_shaped simp: wf_game_def boards_ok_def)
  then have req: "list_all (shaped (rows g) (columns g)) (default_open g (Some t))"
    by (simp add: default_open_def)
  from wf req m i rc hz show ?thesis by (rule move_hazard_cells_kept)
qed

text \<open>
  The theorem on the fully mined board: no weight is positive, the first cell is chosen,
  it is a hazard, and it stays hidden.
\<close>

theorem open_zero_never_reveals_hazard_witness:
  "wf_game mined_game \<and>
   open_zero mined_game example_draws =
     Inr (mined_game\<lparr>last_opened := [[[1, 0]]], active_games := [False], won := [True]\<rparr>,
          [[[1, 0]]]) \<and>
   (0::nat) < length (active_games mined_game) \<and> (0::nat) < rows mined_game \<and>
   (0::nat) < columns mined_game \<and> cell (mines mined_game ! 0) 0 0 \<noteq> 0 \<and>
   cell (open_cells (mined_game\<lparr>last_opened := [[[1, 0]]], active_games := [False],
                                 won := [True]\<rparr>) ! 0) 0 0
     = cell (open_cells mined_game ! 0) 0 0"
proof -
  have i: "(0::nat) < length (active_games mined_game)" by (simp add: mined_game_def)
  have r: "(0::nat) < rows mined_game" and c: "(0::nat) < columns mined_game"
    by (simp_all add: mined_game_def)
  have hz: "cell (mines mined_game ! 0) 0 0 \<noteq> 0" by (simp add: mined_game_def cell_def)
  from open_zero_never_reveals_hazard[OF mined_game_wf mined_open_zero i r c hz]
    mined_game_wf mined_open_zero i r c hz
  show ?thesis by blast
qed

section \<open>Repeating a move\<close>

lemma store8_or_absorb:
  assumes a: "shaped h w a" and b: "shaped h w b"
  shows "store8 (cellwise (OR) (store8 (cellwise (OR) a b)) b) = store8 (cellwise (OR) a b)"
proof (rule board_eqI[of h w])
  have s1: "shaped h w (cellwise (OR) a b)" using a b by (rule shaped_cellwise)
  have s2: "shaped h w (store8 (cellwise (OR) a b))" using s1 by (rule shaped_store8)
  have s3: "shaped h w (cellwise (OR) (store8 (cellwise (OR) a b)) b)"
    using s2 b by (rule shaped_cellwise)
  show "shaped h w (store8 (cellwise (OR) (store8 (cellwise (OR) a b)) b))"
    using s3 by (rule shaped_store8)
  show "shaped h w (store8 (cellwise (OR) a b))" by (rule s2)
  fix r c assume rc: "r < h" "c < w"
  show "cell (store8 (cellwise (OR) (store8 (cellwise (OR) a b)) b)) r c
          = cell (store8 (cellwise (OR) a b)) r c"
    by (simp add: cell_store8[OF s3 rc] cell_cellwise[OF s2 b rc] cell_store8[OF s1 rc]
          cell_cellwise[OF a b rc] int8_or_absorb)
qed

text \<open>
  Claim C9. A slot that a move left active took part in that move and was judged correct.
  A second move that brings the same two boards for that slot judges it correct again, and
  leaves its revealed and marked boards as the first move left them: the merge is a bitwise
  or, \<open>(x OR t) OR t = x OR t\<close>, and what the \<^verbatim>\<open>int8\<close> arrays keep of the result is the
  same both times.
\<close>

theorem move_twice_same_request:
  assumes wf: "wf_game g"
    and req: "wf_request g (default_open g a)" "wf_request g (default_flag (default_open g a) b)"
    and m1: "move g a b = Inr (g1, correct1)"
    and i: "i < length (active_games g)" and still: "active_games g1 ! i"
    and m2: "move g1 a2 b2 = Inr (g2, correct2)"
    and same_open: "default_open g1 a2 ! rank (active_games g1) i = default_open g a ! rank (active_games g) i"
    and same_flag: "default_flag (default_open g1 a2) b2 ! rank (active_games g1) i
                      = default_flag (default_open g a) b ! rank (active_games g) i"
  shows "open_cells g2 ! i = open_cells g1 ! i \<and> flags g2 ! i = flags g1 ! i \<and>
         correct2 ! rank (active_games g1) i"
proof -
  let ?k = "rank (active_games g) i" and ?k1 = "rank (active_games g1) i"
  let ?T = "default_open g a ! ?k" and ?F = "default_flag (default_open g a) b ! ?k"
  have lm: "length (mines g) = length (active_games g)"
    and lop: "length (open_cells g) = length (active_games g)"
    and lfl: "length (flags g) = length (active_games g)"
    using wf by (simp_all add: wf_game_def boards_ok_def)
  have la1: "length (active_games g1) = length (active_games g)"
    using move_lengths(3)[OF m1] .
  have lm1: "length (mines g1) = length (active_games g1)"
    and lop1: "length (open_cells g1) = length (active_games g1)"
    and lfl1: "length (flags g1) = length (active_games g1)"
    using move_frame(3)[OF m1] move_lengths(1,2)[OF m1] lm lop lfl la1 by simp_all
  have i1: "i < length (active_games g1)" using i la1 by simp
  have acc: "active_games g ! i" "correct1 ! ?k"
    using move_active[OF m1 lop lm i] still by simp_all
  have kl: "?k < count_true (active_games g)" using i acc(1) by (rule rank_less)
  have so: "shaped (rows g) (columns g) (open_cells g ! i)"
    and sf: "shaped (rows g) (columns g) (flags g ! i)"
    using wf i by (simp_all add: wf_game_def boards_ok_nth)
  have sT: "shaped (rows g) (columns g) ?T" using req(1) kl by (rule wf_request_nth)
  have sF: "shaped (rows g) (columns g) ?F" using req(2) kl by (rule wf_request_nth)
  have o1: "open_cells g1 ! i = store8 (cellwise (OR) (open_cells g ! i) ?T)"
    using move_open_cells[OF m1 lop lm i] acc by simp
  have f1: "flags g1 ! i = store8 (cellwise (OR) (flags g ! i) ?F)"
    using move_flags[OF m1 lfl lm i] acc by simp
  have c2: "correct2 ! ?k1"
    using move_correct[OF m2 lm1 i1 still] move_correct[OF m1 lm i acc(1)] acc(2)
    by (simp add: same_open same_flag move_frame(3)[OF m1])
  have "open_cells g2 ! i = store8 (cellwise (OR) (open_cells g1 ! i) ?T)"
    using move_open_cells[OF m2 lop1 lm1 i1] still c2 by (simp add: same_open)
  then have o2: "open_cells g2 ! i = open_cells g1 ! i"
    unfolding o1 using so sT by (simp add: store8_or_absorb)
  have "flags g2 ! i = store8 (cellwise (OR) (flags g1 ! i) ?F)"
    using move_flags[OF m2 lfl1 lm1 i1] still c2 by (simp add: same_flag)
  then have f2: "flags g2 ! i = flags g1 ! i"
    unfolding f1 using sf sF by (simp add: store8_or_absorb)
  from o2 f2 c2 show ?thesis by simp
qed

text \<open>The theorem at slot 0 of the example batch, marking the hazard of each board twice.\<close>

lemma example_flag_move:
  "move example_game None (Some example_flags) = Inr (flagged_game, [True, True])"
  by (simp add: example_game_def example_flags_def flagged_game_def eval_simps)

lemma flagged_flag_move:
  "move flagged_game None (Some example_flags) = Inr (flagged_game, [True, True])"
  by (simp add: example_game_def example_flags_def flagged_game_def eval_simps)

theorem move_twice_same_request_witness:
  "wf_game example_game \<and>
   wf_request example_game (default_open example_game None) \<and>
   wf_request example_game (default_flag (default_open example_game None) (Some example_flags)) \<and>
   move example_game None (Some example_flags) = Inr (flagged_game, [True, True]) \<and>
   (0::nat) < length (active_games example_game) \<and> active_games flagged_game ! 0 \<and>
   move flagged_game None (Some example_flags) = Inr (flagged_game, [True, True]) \<and>
   open_cells flagged_game ! 0 = open_cells flagged_game ! 0 \<and>
   flags flagged_game ! 0 = flags flagged_game ! 0 \<and>
   [True, True] ! rank (active_games flagged_game) 0"
proof -
  have r1: "wf_request example_game (default_open example_game None)"
    by (simp add: wf_request_def default_open_def example_game_def zeros_like_def shaped_def count_true_def)
  have r2: "wf_request example_game (default_flag (default_open example_game None) (Some example_flags))"
    by (simp add: wf_request_def default_flag_def example_game_def example_flags_def shaped_def count_true_def)
  have i: "(0::nat) < length (active_games example_game)" by (simp add: example_game_def)
  have still: "active_games flagged_game ! 0" by (simp add: flagged_game_def example_game_def)
  have so: "default_open flagged_game None ! rank (active_games flagged_game) 0
              = default_open example_game None ! rank (active_games example_game) 0"
    by (simp add: default_open_def flagged_game_def example_game_def)
  have sf: "default_flag (default_open flagged_game None) (Some example_flags) ! rank (active_games flagged_game) 0
              = default_flag (default_open example_game None) (Some example_flags) ! rank (active_games example_game) 0"
    by (simp add: default_flag_def flagged_game_def example_game_def)
  from move_twice_same_request[OF example_game_wf r1 r2 example_flag_move i still flagged_flag_move so sf]
    example_game_wf r1 r2 example_flag_move i still flagged_flag_move
  show ?thesis by blast
qed

section \<open>The generated boards\<close>

lemma length_unflatten [simp]: "length (unflatten h w flat) = h"
  by (simp add: unflatten_def)

lemma nth_unflatten: "r < h \<Longrightarrow> unflatten h w flat ! r = take w (drop (r * w) flat)"
  by (simp add: unflatten_def)

lemma shaped_unflatten: "length flat = h * w \<Longrightarrow> shaped h w (unflatten h w flat)"
proof -
  assume l: "length flat = h * w"
  have "length (take w (drop (r * w) flat)) = w" if "r < h" for r
  proof -
    from that have "Suc r * w \<le> h * w" by (metis Suc_leI mult_le_mono1)
    then have "w \<le> h * w - r * w" by simp
    with l show ?thesis by simp
  qed
  then show ?thesis by (simp add: shaped_def list_all_length nth_unflatten)
qed

lemma concat_unflatten_take: "concat (unflatten h w flat) = take (h * w) flat"
proof (induction h)
  case 0 then show ?case by (simp add: unflatten_def)
next
  case (Suc h)
  have "concat (unflatten (Suc h) w flat) = concat (unflatten h w flat) @ take w (drop (h * w) flat)"
    by (simp add: unflatten_def)
  also have "\<dots> = take (h * w) flat @ take w (drop (h * w) flat)" using Suc by simp
  also have "\<dots> = take (h * w + w) flat" by (simp add: take_add)
  finally show ?case by (simp add: add.commute)
qed

lemma concat_unflatten: "length flat = h * w \<Longrightarrow> concat (unflatten h w flat) = flat"
  by (simp add: concat_unflatten_take)


text \<open>A shuffle keeps the cells of a row, in another order.\<close>

lemma is_shuffle_mset: "is_shuffle len p \<Longrightarrow> mset p = mset [0..<len]"
  unfolding is_shuffle_def by (metis mset_sort)

lemma is_shuffle_length: "is_shuffle len p \<Longrightarrow> length p = len"
  by (metis is_shuffle_mset length_upt minus_nat.diff_0 size_mset)

lemma shuffled_row_mset:
  assumes "is_shuffle len p" "length row = len"
  shows "mset (map (\<lambda>j. row ! j) p) = mset row"
proof -
  have "mset (map (\<lambda>j. row ! j) p) = image_mset (\<lambda>j. row ! j) (mset p)" by simp
  also have "\<dots> = image_mset (\<lambda>j. row ! j) (mset [0..<len])"
    using assms(1) by (simp add: is_shuffle_mset)
  also have "\<dots> = mset (map (\<lambda>j. row ! j) [0..<length row])" using assms(2) by simp
  also have "\<dots> = mset row" by (simp add: map_nth)
  finally show ?thesis .
qed

lemma filter_length_mset: "mset xs = mset ys \<Longrightarrow> length (filter P xs) = length (filter P ys)"
  by (metis mset_filter size_mset)

lemma length_ones_prefix [simp]: "length (ones_prefix len k) = len"
proof -
  have "slice_stop len k \<le> len" by (auto simp: slice_stop_def)
  then show ?thesis by (simp add: ones_prefix_def)
qed

lemma ones_prefix_count: "length (filter (\<lambda>x. x \<noteq> 0) (ones_prefix len k)) = slice_stop len k"
  by (simp add: ones_prefix_def)

lemma ones_prefix_binary: "x \<in> set (ones_prefix len k) \<Longrightarrow> x = 0 \<or> x = 1"
  by (auto simp: ones_prefix_def)

lemma hazard_count_shuffled:
  assumes "is_shuffle (h * w) p" "length row = h * w"
  shows "hazard_count (unflatten h w (map (\<lambda>j. row ! j) p)) = length (filter (\<lambda>x. x \<noteq> 0) row)"
proof -
  have "length (map (\<lambda>j. row ! j) p) = h * w" using assms(1) by (simp add: is_shuffle_length)
  then have "concat (unflatten h w (map (\<lambda>j. row ! j) p)) = map (\<lambda>j. row ! j) p"
    by (rule concat_unflatten)
  then show ?thesis unfolding hazard_count_def
    using filter_length_mset[OF shuffled_row_mset[OF assms]] by simp
qed

text \<open>The padded board, cell by cell.\<close>

lemma pad_nth:
  assumes s: "shaped h w m" and R: "R < h + 2" and C: "C < w + 2"
  shows "pad w m ! R ! C =
          (if 1 \<le> R \<and> R \<le> h \<and> 1 \<le> C \<and> C \<le> w then cell m (R - 1) (C - 1) else 0)"
proof -
  have lm: "length m = h" using s by (simp add: shaped_def)
  consider "R = 0" | "R = h + 1" | "1 \<le> R \<and> R \<le> h" using R by linarith
  then show ?thesis
  proof cases
    case 1
    have z: "replicate (w + 2) (0::int) ! C = 0" using C by (rule nth_replicate)
    have "pad w m ! R = replicate (w + 2) 0" unfolding 1 pad_def by (rule nth_Cons_0)
    then show ?thesis using 1 z by simp
  next
    case 2
    have z: "replicate (w + 2) (0::int) ! C = 0" using C by (rule nth_replicate)
    have "pad w m ! R = replicate (w + 2) 0"
      using lm 2 by (simp add: pad_def nth_append nth_Cons' del: replicate_Suc replicate.simps)
    then show ?thesis using 2 z by simp
  next
    case 3
    then have row: "pad w m ! R = 0 # (m ! (R - 1)) @ [0]"
      using lm by (auto simp: pad_def nth_append nth_Cons')
    have lr: "length (m ! (R - 1)) = w" using s 3 by (auto intro: shaped_nth)
    show ?thesis
    proof (cases "1 \<le> C \<and> C \<le> w")
      case True
      then show ?thesis using 3 row lr by (auto simp: nth_Cons' nth_append cell_def)
    next
      case False
      then have "C = 0 \<or> C = w + 1" using C by linarith
      then show ?thesis using 3 row lr by (auto simp: nth_Cons' nth_append)
    qed
  qed
qed

lemma pad_shape:
  assumes s: "shaped h w m"
  shows "length (pad w m) = h + 2" and "R < h + 2 \<Longrightarrow> length (pad w m ! R) = w + 2"
proof -
  have lm: "length m = h" using s by (simp add: shaped_def)
  show "length (pad w m) = h + 2" using lm by (simp add: pad_def)
  assume R: "R < h + 2"
  consider "R = 0" | "R = h + 1" | "1 \<le> R \<and> R \<le> h" using R by linarith
  then show "length (pad w m ! R) = w + 2"
  proof cases
    case 1
    have "pad w m ! R = replicate (w + 2) 0" unfolding 1 pad_def by (rule nth_Cons_0)
    then show ?thesis by (simp only: length_replicate)
  next
    case 2
    have "pad w m ! R = replicate (w + 2) 0"
      using lm 2 by (simp add: pad_def nth_append nth_Cons' del: replicate_Suc replicate.simps)
    then show ?thesis by (simp only: length_replicate)
  next
    case 3
    then have "pad w m ! R = 0 # (m ! (R - 1)) @ [0]"
      using lm by (auto simp: pad_def nth_append nth_Cons')
    moreover have "length (m ! (R - 1)) = w" using s 3 by (auto intro: shaped_nth)
    ultimately show ?thesis by simp
  qed
qed

lemma slice2_window:
  assumes s: "shaped h w m" and d: "di \<le> 2" "dj \<le> 2"
  shows "shaped h w (slice2 (pad w m) di (h + di) dj (w + dj))"
    and "r < h \<Longrightarrow> c < w \<Longrightarrow>
         cell (slice2 (pad w m) di (h + di) dj (w + dj)) r c = pad w m ! (r + di) ! (c + dj)"
proof -
  note ps = pad_shape[OF s]
  have len: "length (take (h + di - di) (drop di (pad w m))) = h" using ps(1) d by simp
  have rowlen: "length (take (w + dj - dj) (drop dj (pad w m ! (di + r)))) = w" if "r < h" for r
    using ps(2)[of "di + r"] that d by simp
  show "shaped h w (slice2 (pad w m) di (h + di) dj (w + dj))"
    using len rowlen ps(1) d by (simp add: shaped_def slice2_def list_all_length)
  assume rc: "r < h" "c < w"
  have "di + r < length (pad w m)" using ps(1) rc d by simp
  moreover have "dj + c < length (pad w m ! (di + r))" using ps(2)[of "di + r"] rc d by simp
  ultimately show "cell (slice2 (pad w m) di (h + di) dj (w + dj)) r c = pad w m ! (r + di) ! (c + dj)"
    using rc ps(1) d by (simp add: cell_def slice2_def add.commute)
qed

lemma fold_window:
  assumes m: "shaped h w m" and acc: "shaped h w acc"
    and offs: "\<forall>(di, dj) \<in> set offs. di \<le> 2 \<and> dj \<le> 2"
  shows "shaped h w (fold (\<lambda>(di, dj) acc. cellwise (+) acc (slice2 (pad w m) di (h + di) dj (w + dj))) offs acc)
       \<and> (r < h \<longrightarrow> c < w \<longrightarrow>
           cell (fold (\<lambda>(di, dj) acc. cellwise (+) acc (slice2 (pad w m) di (h + di) dj (w + dj))) offs acc) r c
             = cell acc r c + (\<Sum>(di, dj) \<leftarrow> offs. pad w m ! (r + di) ! (c + dj)))"
  using acc offs
proof (induction offs arbitrary: acc)
  case Nil
  then show ?case by simp
next
  case (Cons x offs)
  obtain di dj where o: "x = (di, dj)" by (cases x)
  have d: "di \<le> 2" "dj \<le> 2" using Cons.prems(2) o by auto
  let ?s = "slice2 (pad w m) di (h + di) dj (w + dj)"
  have ss: "shaped h w ?s" using m d by (rule slice2_window(1))
  have sa: "shaped h w (cellwise (+) acc ?s)" using Cons.prems(1) ss by (rule shaped_cellwise)
  have rest: "\<forall>(di, dj) \<in> set offs. di \<le> 2 \<and> dj \<le> 2" using Cons.prems(2) by simp
  note ih = Cons.IH[OF sa rest]
  have step: "cell (cellwise (+) acc ?s) r c = cell acc r c + pad w m ! (r + di) ! (c + dj)"
    if "r < h" "c < w"
    using that by (simp add: cell_cellwise[OF Cons.prems(1) ss] slice2_window(2)[OF m d])
  show ?case using ih step by (simp add: o)
qed

lemma pad_term:
  assumes s: "shaped h w m" and b: "binary m" and rc: "r < h" "c < w" and d: "di \<le> 2" "dj \<le> 2"
  shows "pad w m ! (r + di) ! (c + dj) =
     (if 0 \<le> int r + (int di - 1) \<and> int r + (int di - 1) < int h \<and>
         0 \<le> int c + (int dj - 1) \<and> int c + (int dj - 1) < int w \<and>
         cell m (nat (int r + (int di - 1))) (nat (int c + (int dj - 1))) \<noteq> 0
      then 1 else 0)"
proof -
  have R: "r + di < h + 2" and C: "c + dj < w + 2" using rc d by simp_all
  note p = pad_nth[OF s R C]
  show ?thesis
  proof (cases "1 \<le> r + di \<and> r + di \<le> h \<and> 1 \<le> c + dj \<and> c + dj \<le> w")
    case True
    then have i: "r + di - 1 < h" "c + dj - 1 < w" by auto
    have n: "nat (int r + (int di - 1)) = r + di - 1" "nat (int c + (int dj - 1)) = c + dj - 1"
      using True by auto
    have cond: "0 \<le> int r + (int di - 1) \<and> int r + (int di - 1) < int h \<and>
         0 \<le> int c + (int dj - 1) \<and> int c + (int dj - 1) < int w" using True by auto
    from binary_cell[OF s b i] show ?thesis using p True n cond by auto
  next
    case False
    then have "\<not> (0 \<le> int r + (int di - 1) \<and> int r + (int di - 1) < int h \<and>
         0 \<le> int c + (int dj - 1) \<and> int c + (int dj - 1) < int w)" by auto
    then show ?thesis using p False by auto
  qed
qed

lemma window_offsets_eq:
  "window_offsets = [(0,0), (0,1), (0,2), (1,0), (1,1), (1,2), (2,0), (2,1), (2,2)]"
  by (simp add: window_offsets_def)

lemma number_cells_shaped:
  assumes s: "shaped h w m"
  shows "shaped h w (number_cells h w m)"
proof -
  have z: "shaped h w (map (map (\<lambda>_. 0)) m)" using s by (simp add: shaped_def list_all_length)
  have o: "\<forall>(di, dj) \<in> set window_offsets. di \<le> 2 \<and> dj \<le> 2" by (simp add: window_offsets_eq)
  from fold_window[OF s z o] s show ?thesis
    by (simp add: number_cells_def Let_def shaped_def list_all_length)
qed

lemma number_cells_cell:
  assumes s: "shaped h w m" and b: "binary m" and rc: "r < h" "c < w"
  shows "cell (number_cells h w m) r c =
           (if cell m r c \<noteq> 0 then - 1 else hazard_neighbours h w m r c)"
proof -
  let ?z = "map (map (\<lambda>_. 0::int)) m"
  let ?g = "fold (\<lambda>(di, dj) acc. cellwise (+) acc (slice2 (pad w m) di (h + di) dj (w + dj))) window_offsets ?z"
  have z: "shaped h w ?z" using s by (simp add: shaped_def list_all_length)
  have z0: "cell ?z r c = 0" using s rc by (simp add: cell_def shaped_def list_all_length)
  have o: "\<forall>(di, dj) \<in> set window_offsets. di \<le> 2 \<and> dj \<le> 2" by (simp add: window_offsets_eq)
  from fold_window[OF s z o, of r c] rc z0
  have sg: "shaped h w ?g" and g: "cell ?g r c = (\<Sum>(di, dj) \<leftarrow> window_offsets. pad w m ! (r + di) ! (c + dj))"
    by simp_all
  define nb :: "int \<Rightarrow> int \<Rightarrow> int" where
    "nb = (\<lambda>dr dc. if 0 \<le> int r + dr \<and> int r + dr < int h \<and> 0 \<le> int c + dc \<and> int c + dc < int w \<and>
           cell m (nat (int r + dr)) (nat (int c + dc)) \<noteq> 0 then 1 else 0)"
  have t: "pad w m ! (r + di) ! (c + dj) = nb (int di - 1) (int dj - 1)" if "di \<le> 2" "dj \<le> 2" for di dj
    unfolding nb_def using s b rc that by (rule pad_term)
  have centre: "pad w m ! (r + 1) ! (c + 1) = cell m r c"
    using pad_nth[OF s, of "r + 1" "c + 1"] rc by simp
  have nc: "cell (number_cells h w m) r c = (if cell m r c \<noteq> 0 then - 1 else cell ?g r c)"
    using s sg rc by (simp add: number_cells_def Let_def cell_def shaped_def list_all_length)
  have hn: "hazard_neighbours h w m r c =
      nb (-1) (-1) + nb (-1) 0 + nb (-1) 1 + nb 0 (-1) + nb 0 1 + nb 1 (-1) + nb 1 0 + nb 1 1"
    unfolding hazard_neighbours_def neighbour_offsets_def nb_def by (simp split del: if_split)
  have "(\<Sum>(di, dj) \<leftarrow> window_offsets. pad w m ! (r + di) ! (c + dj)) =
      nb (-1) (-1) + nb (-1) 0 + nb (-1) 1 + nb 0 (-1) + cell m r c + nb 0 1 + nb 1 (-1) + nb 1 0 + nb 1 1"
    unfolding window_offsets_eq
    using t[of 0 0] t[of 0 1] t[of 0 2] t[of 1 0] t[of 1 2] t[of 2 0] t[of 2 1] t[of 2 2] centre
    by simp
  with g have "cell ?g r c = cell m r c + hazard_neighbours h w m r c" unfolding hn by simp
  with nc show ?thesis by simp
qed

lemma is_shuffle_set: "is_shuffle len p \<Longrightarrow> set p = {0..<len}"
  by (metis is_shuffle_mset set_mset_mset set_upt)

lemma length_per_slot_counts: "counts_fit n cnt \<Longrightarrow> length (per_slot_counts n cnt) = n"
  by (cases cnt) (simp_all add: counts_fit_def per_slot_counts_def)

lemma random_binary_matrices_fit:
  assumes fit: "counts_fit n cnt" and ps: "length ps = n"
  shows "random_binary_matrices (n, h, w) cnt ps =
           Inr (map (unflatten h w) (permuted ps (map (ones_prefix (h * w)) (per_slot_counts n cnt))))"
proof (cases cnt)
  case (Scalar k)
  then show ?thesis using ps
    by (simp add: random_binary_matrices_def per_slot_counts_def permuted_def)
next
  case (Array ks)
  then show ?thesis using ps fit
    by (auto simp: random_binary_matrices_def per_slot_counts_def permuted_def counts_fit_def)
qed

lemma Game_init_fit:
  assumes fit: "counts_fit n cnt" and ps: "length ps = n"
  shows "Game_init h w cnt n ps =
     Inr \<lparr>n_games = n, rows = h, columns = w, size_cells = h * w,
          mines_n = per_slot_counts n cnt,
          mines = map (unflatten h w) (permuted ps (map (ones_prefix (h * w)) (per_slot_counts n cnt))),
          numbers = compute_number_cells h w
             (map (unflatten h w) (permuted ps (map (ones_prefix (h * w)) (per_slot_counts n cnt)))),
          open_cells = zeros_like
             (map (unflatten h w) (permuted ps (map (ones_prefix (h * w)) (per_slot_counts n cnt)))),
          flags = zeros_like
             (map (unflatten h w) (permuted ps (map (ones_prefix (h * w)) (per_slot_counts n cnt)))),
          active_games = replicate n True, won = replicate n False,
          last_opened = zeros_like
             (map (unflatten h w) (permuted ps (map (ones_prefix (h * w)) (per_slot_counts n cnt)))),
          last_flagged = zeros_like
             (map (unflatten h w) (permuted ps (map (ones_prefix (h * w)) (per_slot_counts n cnt))))\<rparr>"
  by (simp add: Game_init_def random_binary_matrices_fit[OF fit ps])

text \<open>The board generated for one slot.\<close>

lemma generated_slot:
  assumes fit: "counts_fit n cnt" and sh: "shuffles_fit n (h * w) ps" and i: "i < n"
    and init: "Game_init h w cnt n ps = Inr g"
  shows "mines g ! i = unflatten h w (map (\<lambda>j. ones_prefix (h * w) (mines_n g ! i) ! j) (ps ! i))"
    and "length (mines g) = n" and "mines_n g = per_slot_counts n cnt"
    and "numbers g ! i = number_cells h w (mines g ! i)"
    and "rows g = h" "columns g = w" "n_games g = n"
    and "active_games g = replicate n True" "won g = replicate n False"
    and "open_cells g = zeros_like (mines g)" "flags g = zeros_like (mines g)"
    and "last_opened g = zeros_like (mines g)" "last_flagged g = zeros_like (mines g)"
proof -
  have ps: "length ps = n" using sh by (simp add: shuffles_fit_def)
  note g = init[unfolded Game_init_fit[OF fit ps], simplified]
  have lc: "length (per_slot_counts n cnt) = n" using fit by (rule length_per_slot_counts)
  show "length (mines g) = n" using g ps lc by (auto simp: permuted_def)
  show "mines_n g = per_slot_counts n cnt" using g by auto
  show "mines g ! i = unflatten h w (map (\<lambda>j. ones_prefix (h * w) (mines_n g ! i) ! j) (ps ! i))"
    using g ps lc i by (auto simp: permuted_def)
  show "numbers g ! i = number_cells h w (mines g ! i)"
    using g ps lc i by (auto simp: permuted_def compute_number_cells_def)
  show "rows g = h" "columns g = w" "n_games g = n"
    "active_games g = replicate n True" "won g = replicate n False"
    "open_cells g = zeros_like (mines g)" "flags g = zeros_like (mines g)"
    "last_opened g = zeros_like (mines g)" "last_flagged g = zeros_like (mines g)"
    using g by auto
qed

lemma generated_slot_shape:
  assumes fit: "counts_fit n cnt" and sh: "shuffles_fit n (h * w) ps" and i: "i < n"
    and init: "Game_init h w cnt n ps = Inr g"
  shows "shaped h w (mines g ! i)" and "binary (mines g ! i)"
    and "hazard_count (mines g ! i) = slice_stop (h * w) (mines_n g ! i)"
proof -
  let ?row = "ones_prefix (h * w) (mines_n g ! i)"
  let ?flat = "map (\<lambda>j. ?row ! j) (ps ! i)"
  have p: "is_shuffle (h * w) (ps ! i)" using sh i by (simp add: shuffles_fit_def list_all_length)
  have m: "mines g ! i = unflatten h w ?flat" using fit sh i init by (rule generated_slot(1))
  have lf: "length ?flat = h * w" using p by (simp add: is_shuffle_length)
  show s: "shaped h w (mines g ! i)" unfolding m using lf by (rule shaped_unflatten)
  have "x = 0 \<or> x = 1" if "x \<in> set ?flat" for x
  proof -
    from that obtain j where "j \<in> set (ps ! i)" "x = ?row ! j" by auto
    moreover have "j < length ?row" using \<open>j \<in> set (ps ! i)\<close> is_shuffle_set[OF p] by simp
    ultimately have "x \<in> set ?row" by simp
    then show ?thesis by (rule ones_prefix_binary)
  qed
  moreover have "concat (mines g ! i) = ?flat" unfolding m using lf by (rule concat_unflatten)
  ultimately have "\<forall>x \<in> set (concat (mines g ! i)). x = 0 \<or> x = 1" by simp
  then show "binary (mines g ! i)" by (auto simp: binary_def list_all_iff)
  show "hazard_count (mines g ! i) = slice_stop (h * w) (mines_n g ! i)"
    unfolding m using hazard_count_shuffled[OF p, of ?row] by (simp add: ones_prefix_count)
qed

lemma zeros_like_nth:
  "i < length a \<Longrightarrow> shaped h w (a ! i) \<Longrightarrow>
   shaped h w (zeros_like a ! i) \<and> binary (zeros_like a ! i) \<and>
   (\<forall>r<h. \<forall>c<w. cell (zeros_like a ! i) r c = 0)"
  by (auto simp: zeros_like_def shaped_def binary_def cell_def list_all_length)

lemma Game_init_wf:
  assumes fit: "counts_fit n cnt" and sh: "shuffles_fit n (h * w) ps"
    and init: "Game_init h w cnt n ps = Inr g"
  shows "wf_game g"
proof -
  have ps: "length ps = n" using sh by (simp add: shuffles_fit_def)
  have lm: "length (mines g) = n" using generated_slot(2)[OF fit sh _ init]
    using init[unfolded Game_init_fit[OF fit ps]] length_per_slot_counts[OF fit] ps
    by (auto simp: permuted_def)
  have hw: "rows g = h" "columns g = w" and act: "active_games g = replicate n True"
    and z: "open_cells g = zeros_like (mines g)" "flags g = zeros_like (mines g)"
      "last_opened g = zeros_like (mines g)" "last_flagged g = zeros_like (mines g)"
    using init[unfolded Game_init_fit[OF fit ps]] by auto
  have sm: "shaped h w (mines g ! i)" "binary (mines g ! i)" if "i < n" for i
    using generated_slot_shape(1,2)[OF fit sh that init] by simp_all
  have zz: "shaped h w (zeros_like (mines g) ! i)" "binary (zeros_like (mines g) ! i)" if "i < n" for i
    using zeros_like_nth[of i "mines g" h w] that lm sm(1) by simp_all
  show ?thesis
    unfolding wf_game_def boards_ok_def z hw act
    using lm sm zz by (simp add: list_all_length)
qed

section \<open>Hazard counts and neighbour counts of a generated batch\<close>

lemmas init_simps = Game_init_def random_binary_matrices_def permuted_def unflatten_def
  ones_prefix_def slice_stop_def per_slot_counts_def compute_number_cells_def number_cells_def
  window_offsets_def pad_def slice2_def cellwise_def zeros_like_def Let_def eval_nat_numeral

lemma example_shuffles_fit: "shuffles_fit 2 (2 * 2) example_shuffles"
  by (simp add: shuffles_fit_def is_shuffle_def example_shuffles_def upt_rec)

lemma example_counts_fit: "counts_fit 2 (Array [1, 4])"
  by (simp add: counts_fit_def)

lemma generated_game_init: "Game_init 2 2 (Array [1, 4]) 2 example_shuffles = Inr generated_game"
  by (simp add: init_simps example_shuffles_def generated_game_def upt_rec)

lemma slice_stop_exact: "int (slice_stop m k) = k \<longleftrightarrow> 0 \<le> k \<and> k \<le> int m"
  by (cases "k < 0") (auto simp: slice_stop_def)

text \<open>
  Claim C5 says that every slot of a generated batch holds exactly its requested number of
  hazards. The generator writes the ones with the slice \<^verbatim>\<open>m[i, :k] = 1\<close>, which cannot
  write more ones than the row has cells: a request of 3 hazards on a 1\<times>2 board yields a
  board with 2.
\<close>

theorem generated_count_clamped_counterexample:
  "Game_init 1 2 (Scalar 3) 1 [[0, 1]] = Inr crowded_game \<and>
   per_slot_counts 1 (Scalar 3) ! 0 = 3 \<and> hazard_count (mines crowded_game ! 0) = 2"
  by (simp add: init_simps crowded_game_def hazard_count_def per_slot_counts_def upt_rec)

text \<open>
  Claim C5 as amended. In the batch that the constructor generates, a slot holds exactly
  its requested number of hazard cells if and only if that number lies between 0 and
  \<open>rows * columns\<close>. In every slot, whatever was requested, the number board holds -1 on
  every hazard cell, and on every other cell the number of hazards among the eight
  neighbours that lie on the board.
\<close>

theorem generated_batch_counts_and_numbers:
  assumes fit: "counts_fit n cnt" and sh: "shuffles_fit n (h * w) ps" and i: "i < n"
  shows "\<exists>g. Game_init h w cnt n ps = Inr g \<and>
           (int (hazard_count (mines g ! i)) = per_slot_counts n cnt ! i \<longleftrightarrow>
              0 \<le> per_slot_counts n cnt ! i \<and> per_slot_counts n cnt ! i \<le> int (h * w)) \<and>
           (\<forall>r<h. \<forall>c<w.
              (cell (mines g ! i) r c \<noteq> 0 \<longrightarrow> cell (numbers g ! i) r c = - 1) \<and>
              (cell (mines g ! i) r c = 0 \<longrightarrow>
                 cell (numbers g ! i) r c = hazard_neighbours h w (mines g ! i) r c))"
proof -
  have ps: "length ps = n" using sh by (simp add: shuffles_fit_def)
  obtain g where init: "Game_init h w cnt n ps = Inr g"
    using Game_init_fit[OF fit ps] by blast
  have mn: "mines_n g = per_slot_counts n cnt" using fit sh i init by (rule generated_slot(3))
  have "hazard_count (mines g ! i) = slice_stop (h * w) (mines_n g ! i)"
    using fit sh i init by (rule generated_slot_shape(3))
  then have count: "int (hazard_count (mines g ! i)) = per_slot_counts n cnt ! i \<longleftrightarrow>
              0 \<le> per_slot_counts n cnt ! i \<and> per_slot_counts n cnt ! i \<le> int (h * w)"
    unfolding mn by (simp only: slice_stop_exact)
  have s: "shaped h w (mines g ! i)" and b: "binary (mines g ! i)"
    using generated_slot_shape(1,2)[OF fit sh i init] by simp_all
  have nb: "numbers g ! i = number_cells h w (mines g ! i)"
    using fit sh i init by (rule generated_slot(4))
  have "cell (numbers g ! i) r c =
          (if cell (mines g ! i) r c \<noteq> 0 then - 1 else hazard_neighbours h w (mines g ! i) r c)"
    if "r < h" "c < w" for r c
    unfolding nb using s b that by (rule number_cells_cell)
  with init count show ?thesis by auto
qed

text \<open>
  The theorem at slot 0 of a batch of two 2\<times>2 boards with 1 and 4 hazards, and at the
  slot of the 1\<times>2 board for which 3 hazards were requested.
\<close>

theorem generated_batch_counts_and_numbers_witness:
  "counts_fit 2 (Array [1, 4]) \<and> shuffles_fit 2 (2 * 2) example_shuffles \<and> (0::nat) < 2 \<and>
   (\<exists>g. Game_init 2 2 (Array [1, 4]) 2 example_shuffles = Inr g \<and>
           (int (hazard_count (mines g ! 0)) = per_slot_counts 2 (Array [1, 4]) ! 0 \<longleftrightarrow>
              0 \<le> per_slot_counts 2 (Array [1, 4]) ! 0 \<and> per_slot_counts 2 (Array [1, 4]) ! 0 \<le> int (2 * 2)) \<and>
           int (hazard_count (mines g ! 0)) = 1 \<and>
           (\<forall>r<2. \<forall>c<2.
              (cell (mines g ! 0) r c \<noteq> 0 \<longrightarrow> cell (numbers g ! 0) r c = - 1) \<and>
              (cell (mines g ! 0) r c = 0 \<longrightarrow>
                 cell (numbers g ! 0) r c = hazard_neighbours 2 2 (mines g ! 0) r c))) \<and>
   counts_fit 1 (Scalar 3) \<and> shuffles_fit 1 (1 * 2) [[0, 1]] \<and> (0::nat) < 1 \<and>
   (\<exists>g. Game_init 1 2 (Scalar 3) 1 [[0, 1]] = Inr g \<and>
           int (hazard_count (mines g ! 0)) \<noteq> per_slot_counts 1 (Scalar 3) ! 0 \<and>
           (\<forall>r<1. \<forall>c<2.
              (cell (mines g ! 0) r c \<noteq> 0 \<longrightarrow> cell (numbers g ! 0) r c = - 1) \<and>
              (cell (mines g ! 0) r c = 0 \<longrightarrow>
                 cell (numbers g ! 0) r c = hazard_neighbours 1 2 (mines g ! 0) r c)))"
proof -
  have i: "(0::nat) < 2" by simp
  have r: "per_slot_counts 2 (Array [1, 4]) ! 0 = 1"
    by (simp add: per_slot_counts_def)
  from generated_batch_counts_and_numbers[OF example_counts_fit example_shuffles_fit i] r
  have 1: "\<exists>g. Game_init 2 2 (Array [1, 4]) 2 example_shuffles = Inr g \<and>
           (int (hazard_count (mines g ! 0)) = per_slot_counts 2 (Array [1, 4]) ! 0 \<longleftrightarrow>
              0 \<le> per_slot_counts 2 (Array [1, 4]) ! 0 \<and> per_slot_counts 2 (Array [1, 4]) ! 0 \<le> int (2 * 2)) \<and>
           int (hazard_count (mines g ! 0)) = 1 \<and>
           (\<forall>r<2. \<forall>c<2.
              (cell (mines g ! 0) r c \<noteq> 0 \<longrightarrow> cell (numbers g ! 0) r c = - 1) \<and>
              (cell (mines g ! 0) r c = 0 \<longrightarrow>
                 cell (numbers g ! 0) r c = hazard_neighbours 2 2 (mines g ! 0) r c))"
    by auto
  have f: "counts_fit 1 (Scalar 3)" by (simp add: counts_fit_def)
  have s: "shuffles_fit 1 (1 * 2) [[0, 1]]" by (simp add: shuffles_fit_def is_shuffle_def upt_rec)
  have j: "(0::nat) < 1" by simp
  have k: "per_slot_counts 1 (Scalar 3) ! 0 = 3" by (simp add: per_slot_counts_def)
  from generated_batch_counts_and_numbers[OF f s j] k
  have 2: "\<exists>g. Game_init 1 2 (Scalar 3) 1 [[0, 1]] = Inr g \<and>
           int (hazard_count (mines g ! 0)) \<noteq> per_slot_counts 1 (Scalar 3) ! 0 \<and>
           (\<forall>r<1. \<forall>c<2.
              (cell (mines g ! 0) r c \<noteq> 0 \<longrightarrow> cell (numbers g ! 0) r c = - 1) \<and>
              (cell (mines g ! 0) r c = 0 \<longrightarrow>
                 cell (numbers g ! 0) r c = hazard_neighbours 1 2 (mines g ! 0) r c))"
    by auto
  from example_counts_fit example_shuffles_fit i 1 f s j 2 show ?thesis by blast
qed

section \<open>Hazard counts outside the board size\<close>

text \<open>
  Claim C7 says that a hazard count above \<open>rows * columns\<close>, or a negative one, makes the
  construction fail. It does not: a count of 5 on a 1\<times>2 board yields a game whose board
  holds 2 hazards while \<^verbatim>\<open>mines_n\<close> still says 5.
\<close>

theorem construction_overfull_counterexample:
  "Game_init 1 2 (Scalar 5) 1 [[1, 0]] = Inr overfull_game \<and>
   hazard_count (mines overfull_game ! 0) = 2 \<and> mines_n overfull_game ! 0 = 5"
  by (simp add: init_simps overfull_game_def hazard_count_def upt_rec)

text \<open>
  Claim C7 as amended. The construction succeeds for every integer count \<open>k\<close>. The slot keeps
  \<open>k\<close> in \<^verbatim>\<open>mines_n\<close>, and its board holds as many hazards as the slice \<^verbatim>\<open>[:k]\<close> of a row of
  \<open>rows * columns\<close> cells has positions: all of them when \<open>k\<close> exceeds the size, and
  \<open>rows * columns + k\<close> of them (none, when that is negative) when \<open>k\<close> is negative.
\<close>

theorem construction_accepts_any_count:
  assumes fit: "counts_fit n cnt" and sh: "shuffles_fit n (h * w) ps" and i: "i < n"
    and k: "k = per_slot_counts n cnt ! i"
  shows "\<exists>g. Game_init h w cnt n ps = Inr g \<and> mines_n g ! i = k \<and>
           hazard_count (mines g ! i) =
             (if k < 0 then nat (max (int (h * w) + k) 0) else min (nat k) (h * w))"
proof -
  have ps: "length ps = n" using sh by (simp add: shuffles_fit_def)
  obtain g where init: "Game_init h w cnt n ps = Inr g"
    using Game_init_fit[OF fit ps] by blast
  have mn: "mines_n g = per_slot_counts n cnt" using fit sh i init by (rule generated_slot(3))
  have "hazard_count (mines g ! i) = slice_stop (h * w) (mines_n g ! i)"
    using fit sh i init by (rule generated_slot_shape(3))
  with init mn k show ?thesis by (auto simp: slice_stop_def)
qed

theorem construction_accepts_any_count_witness:
  "counts_fit 1 (Scalar 5) \<and> shuffles_fit 1 (1 * 2) [[1, 0]] \<and> (0::nat) < 1 \<and>
   (5::int) = per_slot_counts 1 (Scalar 5) ! 0 \<and>
   (\<exists>g. Game_init 1 2 (Scalar 5) 1 [[1, 0]] = Inr g \<and> mines_n g ! 0 = 5 \<and>
           hazard_count (mines g ! 0) =
             (if (5::int) < 0 then nat (max (int (1 * 2) + 5) 0) else min (nat 5) (1 * 2)))"
proof -
  have f: "counts_fit 1 (Scalar 5)" by (simp add: counts_fit_def)
  have s: "shuffles_fit 1 (1 * 2) [[1, 0]]" by (simp add: shuffles_fit_def is_shuffle_def upt_rec)
  have i: "(0::nat) < 1" by simp
  have k: "(5::int) = per_slot_counts 1 (Scalar 5) ! 0" by (simp add: per_slot_counts_def)
  from construction_accepts_any_count[OF f s i k] f s i k show ?thesis by blast
qed

section \<open>A fully mined slot\<close>

lemma slice_stop_full: "slice_stop len (int len) = len"
  by (simp add: slice_stop_def)

lemma sel_subset: "set (sel ms xs) \<subseteq> set xs"
  by (induction ms xs rule: sel.induct) auto

lemma default_open_None_wf:
  assumes wf: "wf_game g"
  shows "wf_request g (default_open g None)"
proof -
  have lm: "length (mines g) = length (active_games g)"
    and sm: "list_all (shaped (rows g) (columns g)) (mines g)"
    using wf by (simp_all add: wf_game_def boards_ok_def)
  have "list_all (shaped (rows g) (columns g)) (sel (active_games g) (mines g))"
    using sm sel_subset[of "active_games g" "mines g"] by (auto simp: list_all_iff)
  then have "list_all (shaped (rows g) (columns g)) (zeros_like (sel (active_games g) (mines g)))"
    by (rule shaped_zeros_like)
  then show ?thesis using lm by (simp add: wf_request_def default_open_def length_sel)
qed

lemma move_None_None_total:
  assumes wf: "wf_game g"
  shows "\<exists>g' correct. move g None None = Inr (g', correct)"
proof -
  have "length (mines g) = length (active_games g)"
    using wf by (simp add: wf_game_def boards_ok_def)
  then show ?thesis
    by (simp add: move_def Let_def default_open_def default_flag_def length_sel)
qed

text \<open>
  Claim C10. A slot constructed with as many hazards as the board has cells starts active
  and not won, although its board is covered from the start. The call of \<^verbatim>\<open>move\<close> without
  requests succeeds and leaves it won and inactive, and so does every other successful call
  of \<^verbatim>\<open>move\<close>: the win flag is written by \<^verbatim>\<open>move\<close> alone.
\<close>

theorem all_hazard_slot_wins_at_first_move:
  assumes fit: "counts_fit n cnt" and sh: "shuffles_fit n (h * w) ps" and i: "i < n"
    and init: "Game_init h w cnt n ps = Inr g"
    and full: "per_slot_counts n cnt ! i = int (h * w)"
  shows "\<not> won g ! i \<and> active_games g ! i \<and> covered g i \<and>
         (\<exists>g' correct. move g None None = Inr (g', correct) \<and> won g' ! i \<and> \<not> active_games g' ! i) \<and>
         (\<forall>a b g' correct. wf_request g (default_open g a) \<longrightarrow> move g a b = Inr (g', correct) \<longrightarrow>
            won g' ! i \<and> \<not> active_games g' ! i)"
proof -
  note gs = generated_slot[OF fit sh i init]
  have wf: "wf_game g" using fit sh init by (rule Game_init_wf)
  have la: "length (active_games g) = n" using gs(8) by simp
  have ia: "i < length (active_games g)" using i la by simp
  have s: "shaped h w (mines g ! i)" and b: "binary (mines g ! i)"
    and hc: "hazard_count (mines g ! i) = slice_stop (h * w) (mines_n g ! i)"
    using generated_slot_shape[OF fit sh i init] by simp_all
  have "mines_n g ! i = int (h * w)" unfolding gs(3) by (rule full)
  then have "hazard_count (mines g ! i) = h * w" using hc by (simp only: slice_stop_full)
  moreover have "length (concat (mines g ! i)) = h * w"
    using gs(1) sh i by (simp add: concat_unflatten is_shuffle_length shuffles_fit_def list_all_length)
  ultimately have "length (filter (\<lambda>x. x \<noteq> 0) (concat (mines g ! i))) = length (concat (mines g ! i))"
    by (simp add: hazard_count_def)
  then have all: "x \<noteq> 0" if "x \<in> set (concat (mines g ! i))" for x
    using length_filter_less[of x "concat (mines g ! i)" "\<lambda>x. x \<noteq> 0"] that by auto
  have hz: "cell (mines g ! i) r c \<noteq> 0" if "r < h" "c < w" for r c
  proof -
    have "mines g ! i ! r \<in> set (mines g ! i)" using s that by (simp add: shaped_def)
    moreover have "mines g ! i ! r ! c \<in> set (mines g ! i ! r)"
      using shaped_nth[OF s that(1)] that(2) by simp
    ultimately have "cell (mines g ! i) r c \<in> set (concat (mines g ! i))"
      unfolding cell_def by auto
    then show ?thesis by (rule all)
  qed
  have cov: "covered g' i" if "mines g' = mines g" "rows g' = rows g" "columns g' = columns g" for g'
    unfolding covered_def using that hz by (simp add: gs(5,6))
  have start: "\<not> won g ! i" "active_games g ! i" using i by (simp_all add: gs(8,9))
  have after: "won g' ! i \<and> \<not> active_games g' ! i"
    if "wf_request g (default_open g a)" "move g a b = Inr (g', correct)" for a b g' correct
  proof -
    have "covered g' i" using move_frame(1,2,3)[OF that(2)] by (intro cov) simp_all
    then have "won g' ! i" using move_won_covered[OF wf wf_request_shaped[OF that(1)] that(2) ia] by simp
    then show ?thesis using move_won_inactive[OF wf that(2) ia] by simp
  qed
  obtain g' correct where m: "move g None None = Inr (g', correct)"
    using move_None_None_total[OF wf] by blast
  from after[OF default_open_None_wf[OF wf] m] m
  have ex: "\<exists>g' correct. move g None None = Inr (g', correct) \<and> won g' ! i \<and> \<not> active_games g' ! i"
    by blast
  have c0: "covered g i" by (rule cov) simp_all
  show ?thesis
  proof (intro conjI allI impI)
    show "\<not> won g ! i" "active_games g ! i" by (rule start)+
    show "covered g i" by (rule c0)
    show "\<exists>g' correct. move g None None = Inr (g', correct) \<and> won g' ! i \<and> \<not> active_games g' ! i"
      by (rule ex)
  next
    fix a b g' correct
    assume "wf_request g (default_open g a)" "move g a b = Inr (g', correct)"
    then show "won g' ! i" "\<not> active_games g' ! i" using after by blast+
  qed
qed

text \<open>The theorem at slot 1 of the generated example batch, which is fully mined.\<close>

lemma generated_game_move:
  "move generated_game (Some generated_request) None =
     Inr (generated_game\<lparr>last_opened := [[[1, 0], [0, 0]], [[0, 0], [0, 0]]],
            open_cells := [[[1, 0], [0, 0]], [[0, 0], [0, 0]]],
            active_games := [True, False], won := [False, True]\<rparr>, [True, True])"
  by (simp add: generated_game_def generated_request_def eval_simps)

theorem all_hazard_slot_wins_at_first_move_witness:
  "counts_fit 2 (Array [1, 4]) \<and> shuffles_fit 2 (2 * 2) example_shuffles \<and> (1::nat) < 2 \<and>
   Game_init 2 2 (Array [1, 4]) 2 example_shuffles = Inr generated_game \<and>
   per_slot_counts 2 (Array [1, 4]) ! 1 = int (2 * 2) \<and>
   \<not> won generated_game ! 1 \<and> active_games generated_game ! 1 \<and> covered generated_game 1 \<and>
   (\<exists>g' correct. move generated_game None None = Inr (g', correct) \<and> won g' ! 1 \<and>
       \<not> active_games g' ! 1) \<and>
   wf_request generated_game (default_open generated_game (Some generated_request)) \<and>
   won (generated_game\<lparr>last_opened := [[[1, 0], [0, 0]], [[0, 0], [0, 0]]],
            open_cells := [[[1, 0], [0, 0]], [[0, 0], [0, 0]]],
            active_games := [True, False], won := [False, True]\<rparr>) ! 1 \<and>
   \<not> active_games (generated_game\<lparr>last_opened := [[[1, 0], [0, 0]], [[0, 0], [0, 0]]],
            open_cells := [[[1, 0], [0, 0]], [[0, 0], [0, 0]]],
            active_games := [True, False], won := [False, True]\<rparr>) ! 1"
proof -
  have i: "(1::nat) < 2" by simp
  have full: "per_slot_counts 2 (Array [1, 4]) ! 1 = int (2 * 2)" by (simp add: per_slot_counts_def)
  have req: "wf_request generated_game (default_open generated_game (Some generated_request))"
    by (simp add: wf_request_def default_open_def generated_game_def generated_request_def
          shaped_def count_true_def)
  note t = all_hazard_slot_wins_at_first_move[OF example_counts_fit example_shuffles_fit i
      generated_game_init full]
  from t req generated_game_move
  have "won (generated_game\<lparr>last_opened := [[[1, 0], [0, 0]], [[0, 0], [0, 0]]],
            open_cells := [[[1, 0], [0, 0]], [[0, 0], [0, 0]]],
            active_games := [True, False], won := [False, True]\<rparr>) ! 1 \<and>
        \<not> active_games (generated_game\<lparr>last_opened := [[[1, 0], [0, 0]], [[0, 0], [0, 0]]],
            open_cells := [[[1, 0], [0, 0]], [[0, 0], [0, 0]]],
            active_games := [True, False], won := [False, True]\<rparr>) ! 1"
    by blast
  with t example_counts_fit example_shuffles_fit i generated_game_init full req
  show ?thesis by blast
qed

section \<open>The progress score\<close>



lemma length_sel_le: "length (sel ms xs) \<le> length xs"
  by (induction ms xs rule: sel.induct) auto






section \<open>The request of \<^verbatim>\<open>open_zero\<close>\<close>









section \<open>Views and copies\<close>

text \<open>Writing a list of values into distinct slots of one buffer.\<close>

lemma fold_write_length [simp]:
  "length (fold (\<lambda>(j, v) buf. buf[j := v]) jvs buf) = length buf"
  by (induction jvs arbitrary: buf) (auto split: prod.splits)

lemma fold_write_other:
  "j \<notin> fst ` set jvs \<Longrightarrow> fold (\<lambda>(j, v) buf. buf[j := v]) jvs buf ! j = buf ! j"
  by (induction jvs arbitrary: buf) (auto split: prod.splits)

lemma fold_write_hit:
  assumes "distinct js" "length vs = length js" "k < length js" "\<forall>j \<in> set js. j < length buf"
  shows "fold (\<lambda>(j, v) buf. buf[j := v]) (zip js vs) buf ! (js ! k) = vs ! k"
  using assms
proof (induction js arbitrary: vs buf k)
  case Nil then show ?case by simp
next
  case (Cons j js)
  then obtain v vs' where vs: "vs = v # vs'" by (cases vs) auto
  show ?case
  proof (cases k)
    case 0
    have "j \<notin> fst ` set (zip js vs')" using Cons.prems(1) by (auto dest: set_zip_leftD)
    then have "fold (\<lambda>(j, v) buf. buf[j := v]) (zip js vs') (buf[j := v]) ! j = buf[j := v] ! j"
      by (rule fold_write_other)
    then show ?thesis using 0 vs Cons.prems(4) by simp
  next
    case (Suc k')
    then show ?thesis using Cons vs by simp
  qed
qed

lemma view_write_same:
  assumes ok: "ref_ok bufs r" and l: "length vs = length (view_slots r)"
  shows "view (write_view bufs r vs) r = vs"
proof (rule nth_equalityI)
  show "length (view (write_view bufs r vs) r) = length vs" using l by (simp add: view_def)
  fix k assume "k < length (view (write_view bufs r vs) r)"
  then have k: "k < length (view_slots r)" by (simp add: view_def)
  have "fold (\<lambda>(j, v) buf. buf[j := v]) (zip (view_slots r) vs) (bufs ! buffer_id r) ! (view_slots r ! k) = vs ! k"
    using ok l k by (intro fold_write_hit) (auto simp: ref_ok_def list_all_iff)
  then show "view (write_view bufs r vs) r ! k = vs ! k"
    using ok k by (simp add: view_def write_view_def ref_ok_def)
qed

text \<open>A write through a part of an array, seen through the whole array.\<close>

lemma view_write_part:
  assumes ok: "ref_ok bufs r" and lo: "lo + n \<le> length (view_slots r)" and l: "length vs = n"
    and r': "buffer_id r' = buffer_id r" "view_slots r' = take n (drop lo (view_slots r))"
  shows "view (write_view bufs r' vs) r = take lo (view bufs r) @ vs @ drop (lo + n) (view bufs r)"
proof (rule nth_equalityI)
  let ?js = "view_slots r" and ?buf = "bufs ! buffer_id r"
  let ?buf' = "fold (\<lambda>(j, v) buf. buf[j := v]) (zip (view_slots r') vs) ?buf"
  have b: "buffer_id r < length bufs" and d: "distinct ?js" and rg: "\<forall>j \<in> set ?js. j < length ?buf"
    using ok by (auto simp: ref_ok_def list_all_iff)
  have w: "write_view bufs r' vs ! buffer_id r = ?buf'" using b r'(1) by (simp add: write_view_def)
  have lr': "length (view_slots r') = n" using lo r'(2) by simp
  show len: "length (view (write_view bufs r' vs) r) = length (take lo (view bufs r) @ vs @ drop (lo + n) (view bufs r))"
    using lo l by (simp add: view_def)
  fix k assume "k < length (view (write_view bufs r' vs) r)"
  then have k: "k < length ?js" by (simp add: view_def)
  have lhs: "view (write_view bufs r' vs) r ! k = ?buf' ! (?js ! k)" using k w by (simp add: view_def)
  consider "k < lo" | "lo \<le> k \<and> k < lo + n" | "lo + n \<le> k" by linarith
  then show "view (write_view bufs r' vs) r ! k = (take lo (view bufs r) @ vs @ drop (lo + n) (view bufs r)) ! k"
  proof cases
    case 1
    have "?js ! k \<notin> set (view_slots r')"
    proof
      assume "?js ! k \<in> set (view_slots r')"
      then obtain m where m: "m < n" "?js ! (lo + m) = ?js ! k"
        unfolding r'(2) using lo by (auto simp: in_set_conv_nth)
      then have "lo + m = k" using d k lo by (simp add: nth_eq_iff_index_eq)
      with 1 show False by simp
    qed
    then have "?js ! k \<notin> fst ` set (zip (view_slots r') vs)" by (auto dest: set_zip_leftD)
    then have "?buf' ! (?js ! k) = ?buf ! (?js ! k)" by (rule fold_write_other)
    then show ?thesis using lhs 1 k lo by (simp add: nth_append view_def)
  next
    case 2
    then obtain m where m: "k = lo + m" "m < n" by (metis le_Suc_ex nat_add_left_cancel_less)
    have km: "m < length (view_slots r')" using lr' m by simp
    have sl: "view_slots r' ! m = ?js ! k" unfolding r'(2) m(1) using m(2) lo by simp
    have "?buf' ! (view_slots r' ! m) = vs ! m"
    proof (rule fold_write_hit)
      show "distinct (view_slots r')" unfolding r'(2) using d by (simp add: distinct_drop)
      show "length vs = length (view_slots r')" using l lr' by simp
      show "m < length (view_slots r')" by (rule km)
      show "\<forall>j \<in> set (view_slots r'). j < length ?buf"
        unfolding r'(2) using rg by (meson in_set_dropD in_set_takeD)
    qed
    then have "view (write_view bufs r' vs) r ! k = vs ! m" using lhs sl by simp
    moreover have "(take lo (view bufs r) @ vs @ drop (lo + n) (view bufs r)) ! k = vs ! m"
      using m l lo by (simp add: nth_append view_def)
    ultimately show ?thesis by simp
  next
    case 3
    have "?js ! k \<notin> set (view_slots r')"
    proof
      assume "?js ! k \<in> set (view_slots r')"
      then obtain m where m: "m < n" "?js ! (lo + m) = ?js ! k"
        unfolding r'(2) using lo by (auto simp: in_set_conv_nth)
      then have "lo + m = k" using d k lo by (simp add: nth_eq_iff_index_eq)
      with 3 m show False by simp
    qed
    then have "?js ! k \<notin> fst ` set (zip (view_slots r') vs)" by (auto dest: set_zip_leftD)
    then have "?buf' ! (?js ! k) = ?buf ! (?js ! k)" by (rule fold_write_other)
    moreover have "\<not> k - lo < n" using 3 by linarith
    moreover have "lo + n + (k - lo - n) = k" using 3 by linarith
    ultimately show ?thesis using lhs 3 k lo l by (simp add: nth_append view_def)
  qed
qed

lemma view_append: "buffer_id r < length bufs \<Longrightarrow> view (bufs @ xs) r = view bufs r"
  by (simp add: view_def nth_append)

lemma view_write_other:
  "buffer_id r \<noteq> buffer_id r' \<Longrightarrow> view (write_view bufs r' vs) r = view bufs r"
  by (simp add: view_def write_view_def)

lemma view_alloc: "view (bufs @ [vs]) \<lparr>buffer_id = length bufs, view_slots = [0..<length vs]\<rparr> = vs"
  by (simp add: view_def map_nth)

lemma clamp_index_le: "clamp_index len k \<le> len"
  by (simp add: clamp_index_def)

lemma slice_lo_le: "slice_lo len start \<le> len"
  by (cases start) (simp_all add: slice_lo_def clamp_index_le)

lemma slice_hi_le: "slice_hi len stop \<le> len"
  by (cases stop) (simp_all add: slice_hi_def clamp_index_le)

lemma key_bounds_le: "key_lo len k \<le> len" "key_hi len k \<le> len"
  by (cases k; simp add: slice_lo_le slice_hi_le)+

text \<open>An int or a slice: the same buffers, and a reference into the old buffer.\<close>

lemma getitem_array_slice:
  assumes "\<not> is_index_key k"
  shows "getitem_array bufs r k =
    Inr (bufs, r\<lparr>view_slots := take (key_hi (length (view_slots r)) k - key_lo (length (view_slots r)) k)
                                (drop (key_lo (length (view_slots r)) k) (view_slots r))\<rparr>)"
  using assms by (cases k) (simp_all add: getitem_array_def slice_ref_def Let_def)

lemma getitem_slice:
  assumes k: "\<not> is_index_key k" and sel: "getitem h self k = Inr (h', g)"
  shows "h' = h"
    and "(r', r) \<in> set (zip (cell_arrays g) (cell_arrays self)) \<Longrightarrow>
         buffer_id r' = buffer_id r \<and>
         view_slots r' = take (key_hi (length (view_slots r)) k - key_lo (length (view_slots r)) k)
                              (drop (key_lo (length (view_slots r)) k) (view_slots r))"
proof -
  note a = getitem_array_slice[OF k]
  from sel show "h' = h" by (auto simp: getitem_def a)
  assume "(r', r) \<in> set (zip (cell_arrays g) (cell_arrays self))"
  with sel show "buffer_id r' = buffer_id r \<and>
         view_slots r' = take (key_hi (length (view_slots r)) k - key_lo (length (view_slots r)) k)
                              (drop (key_lo (length (view_slots r)) k) (view_slots r))"
    by (auto simp: getitem_def a cell_arrays_def)
qed

text \<open>An index array: one new buffer, and a reference to all of it.\<close>

lemma getitem_array_index:
  assumes "getitem_array bufs r (KIndex idx) = Inr (bufs', r')"
  shows "bufs' = bufs @ [map (\<lambda>p. view bufs r ! p) (key_positions (length (view_slots r)) (KIndex idx))]"
    and "r' = \<lparr>buffer_id = length bufs, view_slots = [0..<length idx]\<rparr>"
  using assms by (auto simp: getitem_array_def alloc_def index_positions_def split: sum.splits if_splits)

lemma getitem_index:
  assumes ok: "list_all (ref_ok (cell_bufs h)) (cell_arrays self)"
    and sel: "getitem h self (KIndex idx) = Inr (h', g)"
    and pair: "(r', r) \<in> set (zip (cell_arrays g) (cell_arrays self))"
  shows "\<exists>pre post. cell_bufs h' = cell_bufs h @ pre @
              [map (\<lambda>p. view (cell_bufs h) r ! p) (key_positions (length (view_slots r)) (KIndex idx))] @ post \<and>
           r' = \<lparr>buffer_id = length (cell_bufs h) + length pre, view_slots = [0..<length idx]\<rparr>"
proof -
  let ?B = "cell_bufs h"
  let ?vals = "\<lambda>x. map (\<lambda>p. view ?B x ! p) (key_positions (length (view_slots x)) (KIndex idx))"
  from sel obtain cb r0 c1 r1 c2 r2 c3 r3 c4 r4 f1 ra f2 rw c5 r5 c6 r6 where
    a1: "getitem_array ?B (mines_ref self) (KIndex idx) = Inr (c1, r1)"
    and a2: "getitem_array c1 (numbers_ref self) (KIndex idx) = Inr (c2, r2)"
    and a3: "getitem_array c2 (open_cells_ref self) (KIndex idx) = Inr (c3, r3)"
    and a4: "getitem_array c3 (flags_ref self) (KIndex idx) = Inr (c4, r4)"
    and a5: "getitem_array c4 (last_opened_ref self) (KIndex idx) = Inr (c5, r5)"
    and a6: "getitem_array c5 (last_flagged_ref self) (KIndex idx) = Inr (c6, r6)"
    and h': "cell_bufs h' = c6"
    and g: "mines_ref g = r1" "numbers_ref g = r2" "open_cells_ref g = r3" "flags_ref g = r4"
      "last_opened_ref g = r5" "last_flagged_ref g = r6"
    by (auto simp: getitem_def split: sum.splits)
  have b: "buffer_id (mines_ref self) < length ?B" "buffer_id (numbers_ref self) < length ?B"
    "buffer_id (open_cells_ref self) < length ?B" "buffer_id (flags_ref self) < length ?B"
    "buffer_id (last_opened_ref self) < length ?B" "buffer_id (last_flagged_ref self) < length ?B"
    using ok by (simp_all add: cell_arrays_def ref_ok_def)
  note 1 = getitem_array_index[OF a1]
  have c1: "c1 = ?B @ [?vals (mines_ref self)]" using 1(1) .
  note 2 = getitem_array_index[OF a2]
  have c2: "c2 = ?B @ [?vals (mines_ref self), ?vals (numbers_ref self)]"
    using 2(1) unfolding c1 by (simp add: view_append[OF b(2)])
  note 3 = getitem_array_index[OF a3]
  have c3: "c3 = ?B @ [?vals (mines_ref self), ?vals (numbers_ref self), ?vals (open_cells_ref self)]"
    using 3(1) unfolding c2 by (simp add: view_append[OF b(3)])
  note 4 = getitem_array_index[OF a4]
  have c4: "c4 = ?B @ [?vals (mines_ref self), ?vals (numbers_ref self), ?vals (open_cells_ref self),
                       ?vals (flags_ref self)]"
    using 4(1) unfolding c3 by (simp add: view_append[OF b(4)])
  note 5 = getitem_array_index[OF a5]
  have c5: "c5 = ?B @ [?vals (mines_ref self), ?vals (numbers_ref self), ?vals (open_cells_ref self),
                       ?vals (flags_ref self), ?vals (last_opened_ref self)]"
    using 5(1) unfolding c4 by (simp add: view_append[OF b(5)])
  note 6 = getitem_array_index[OF a6]
  have c6: "c6 = ?B @ [?vals (mines_ref self), ?vals (numbers_ref self), ?vals (open_cells_ref self),
                       ?vals (flags_ref self), ?vals (last_opened_ref self), ?vals (last_flagged_ref self)]"
    using 6(1) unfolding c5 by (simp add: view_append[OF b(6)])
  let ?L = "length ?B"
  have P: "\<exists>pre post. cell_bufs h' = ?B @ pre @ [?vals x] @ post \<and>
           y = \<lparr>buffer_id = ?L + length pre, view_slots = [0..<length idx]\<rparr>"
    if "y = \<lparr>buffer_id = ?L + length pre, view_slots = [0..<length idx]\<rparr>"
       "c6 = ?B @ pre @ [?vals x] @ post" for x y pre post
    using that h' by blast
  from pair consider "r' = r1 \<and> r = mines_ref self" | "r' = r2 \<and> r = numbers_ref self"
    | "r' = r3 \<and> r = open_cells_ref self" | "r' = r4 \<and> r = flags_ref self"
    | "r' = r5 \<and> r = last_opened_ref self" | "r' = r6 \<and> r = last_flagged_ref self"
    by (auto simp: cell_arrays_def g)
  then show ?thesis
  proof cases
    case 1 show ?thesis
      by (rule P[of _ "[]" _ "[?vals (numbers_ref self), ?vals (open_cells_ref self),
             ?vals (flags_ref self), ?vals (last_opened_ref self), ?vals (last_flagged_ref self)]"])
         (simp_all add: 1 \<open>r1 = _\<close> c6)
  next
    case 2 show ?thesis
      by (rule P[of _ "[?vals (mines_ref self)]" _ "[?vals (open_cells_ref self),
             ?vals (flags_ref self), ?vals (last_opened_ref self), ?vals (last_flagged_ref self)]"])
         (simp_all add: 2 \<open>r2 = _\<close> c1 c6)
  next
    case 3 show ?thesis
      by (rule P[of _ "[?vals (mines_ref self), ?vals (numbers_ref self)]" _
             "[?vals (flags_ref self), ?vals (last_opened_ref self), ?vals (last_flagged_ref self)]"])
         (simp_all add: 3 \<open>r3 = _\<close> c2 c6)
  next
    case 4 show ?thesis
      by (rule P[of _ "[?vals (mines_ref self), ?vals (numbers_ref self), ?vals (open_cells_ref self)]" _
             "[?vals (last_opened_ref self), ?vals (last_flagged_ref self)]"])
         (simp_all add: 4 \<open>r4 = _\<close> c3 c6)
  next
    case 5 show ?thesis
      by (rule P[of _ "[?vals (mines_ref self), ?vals (numbers_ref self), ?vals (open_cells_ref self),
             ?vals (flags_ref self)]" _ "[?vals (last_flagged_ref self)]"])
         (simp_all add: 5 \<open>r5 = _\<close> c4 c6)
  next
    case 6 show ?thesis
      by (rule P[of _ "[?vals (mines_ref self), ?vals (numbers_ref self), ?vals (open_cells_ref self),
             ?vals (flags_ref self), ?vals (last_opened_ref self)]" _ "[]"])
         (simp_all add: 6 \<open>r6 = _\<close> c5 c6)
  qed
qed

lemma take_drop_positions:
  "hi \<le> length v \<Longrightarrow> take (hi - lo) (drop lo v) = map (\<lambda>p. v ! p) [lo..<hi]"
  by (rule nth_equalityI) auto

lemmas heap_simps = getitem_def getitem_array_def slice_ref_def slice_lo_def slice_hi_def
  clamp_index_def index_positions_def alloc_def view_def write_view_def load_def move_obj_def
  example_heap_def example_obj_def selected_obj_def moved_heap_def copied_heap_def copied_obj_def
  example_game_def

lemma example_getitem_int: "getitem example_heap example_obj (KInt 0) = Inr (example_heap, selected_obj)"
  by (simp add: heap_simps Let_def)

lemma example_getitem_index:
  "getitem example_heap example_obj (KIndex [1]) = Inr (copied_heap, copied_obj)"
  by (simp add: heap_simps Let_def)

text \<open>
  Claim C8 says that the arrays of a selection are copies. With an int key they are views:
  on the example object, the selection \<^verbatim>\<open>g[0]\<close> leaves the heap as it is, and a move on the
  selection that reveals the right cell of its board shows in the revealed array of the
  original, whose slot 0 changes from \<open>[[0, 0]]\<close> to \<open>[[0, 1]]\<close>.
\<close>

theorem getitem_int_key_aliases_counterexample:
  "getitem example_heap example_obj (KInt 0) = Inr (example_heap, selected_obj) \<and>
   move_obj example_heap selected_obj (Some [[[0, 1]]]) None =
     Inr (moved_heap, selected_obj\<lparr>won_ref := \<lparr>buffer_id = 2, view_slots = [0]\<rparr>\<rparr>, [True]) \<and>
   view (cell_bufs example_heap) (open_cells_ref example_obj) = [[[0, 0]], [[0, 0]]] \<and>
   view (cell_bufs moved_heap) (open_cells_ref example_obj) = [[[0, 1]], [[0, 0]]]"
  by (simp add: heap_simps eval_simps Let_def)

text \<open>
  Claim C8 as amended. For each of the six per-cell arrays \<open>r\<close> of the original and the
  array \<open>r'\<close> the selection holds in its place, \<open>r'\<close> shows the chosen slots of \<open>r\<close>, in the
  order of the key. With an int or slice key nothing is allocated, \<open>r'\<close> reads and writes
  the buffer of \<open>r\<close>, it shows the slots \<open>lo..<hi\<close> of \<open>r\<close>, and an assignment of \<open>vs\<close> to
  \<open>r'\<close> replaces exactly those slots of \<open>r\<close>. With an index array \<open>r'\<close> lies in another
  buffer, which holds the values of the chosen slots; the original reads as before, and an
  assignment through either array leaves what the other one shows unchanged.
\<close>

theorem getitem_views_or_copies:
  assumes ok: "list_all (ref_ok (cell_bufs h)) (cell_arrays self)"
    and sel: "getitem h self k = Inr (h', g)"
    and pair: "(r', r) \<in> set (zip (cell_arrays g) (cell_arrays self))"
    and vs: "length vs = length (view_slots r')"
    and lo: "lo = key_lo (length (view_slots r)) k" and hi: "hi = key_hi (length (view_slots r)) k"
    and ps: "ps = key_positions (length (view_slots r)) k"
  shows "view (cell_bufs h') r' = map (\<lambda>p. view (cell_bufs h) r ! p) ps \<and>
         (\<not> is_index_key k \<longrightarrow>
            h' = h \<and> buffer_id r' = buffer_id r \<and>
            view (cell_bufs h) r' = take (hi - lo) (drop lo (view (cell_bufs h) r)) \<and>
            view (write_view (cell_bufs h) r' vs) r =
              take lo (view (cell_bufs h) r) @ vs @ drop (lo + (hi - lo)) (view (cell_bufs h) r)) \<and>
         (is_index_key k \<longrightarrow>
            buffer_id r' \<noteq> buffer_id r \<and> view (cell_bufs h') r = view (cell_bufs h) r \<and>
            view (write_view (cell_bufs h') r' vs) r = view (cell_bufs h) r \<and>
            (\<forall>ws. view (write_view (cell_bufs h') r ws) r' = view (cell_bufs h') r'))"
proof -
  have r: "ref_ok (cell_bufs h) r"
    using ok pair by (auto simp: list_all_iff dest: set_zip_rightD)
  have slice: "h' = h \<and> buffer_id r' = buffer_id r \<and>
            view (cell_bufs h) r' = take (hi - lo) (drop lo (view (cell_bufs h) r)) \<and>
            view (write_view (cell_bufs h) r' vs) r =
              take lo (view (cell_bufs h) r) @ vs @ drop (lo + (hi - lo)) (view (cell_bufs h) r)"
    if k: "\<not> is_index_key k"
  proof (intro conjI)
    show "h' = h" using k sel by (rule getitem_slice(1))
    from getitem_slice(2)[OF k sel pair]
    have b: "buffer_id r' = buffer_id r"
      and s: "view_slots r' = take (hi - lo) (drop lo (view_slots r))"
      by (simp_all add: lo hi)
    show "buffer_id r' = buffer_id r" by (rule b)
    show "view (cell_bufs h) r' = take (hi - lo) (drop lo (view (cell_bufs h) r))"
      by (simp add: view_def b s take_map drop_map)
    have le: "lo + (hi - lo) \<le> length (view_slots r)"
      using key_bounds_le[of "length (view_slots r)" k] by (simp add: lo hi)
    have lv: "length vs = hi - lo" using vs s le by simp
    show "view (write_view (cell_bufs h) r' vs) r =
              take lo (view (cell_bufs h) r) @ vs @ drop (lo + (hi - lo)) (view (cell_bufs h) r)"
      using r le lv b s by (rule view_write_part)
  qed
  have index: "view (cell_bufs h') r' = map (\<lambda>p. view (cell_bufs h) r ! p) ps \<and>
            buffer_id r' \<noteq> buffer_id r \<and> view (cell_bufs h') r = view (cell_bufs h) r \<and>
            view (write_view (cell_bufs h') r' vs) r = view (cell_bufs h) r \<and>
            (\<forall>ws. view (write_view (cell_bufs h') r ws) r' = view (cell_bufs h') r')"
    if "is_index_key k"
  proof -
    from that obtain idx where k: "k = KIndex idx" by (cases k) auto
    let ?vals = "map (\<lambda>p. view (cell_bufs h) r ! p) ps"
    from getitem_index[OF ok sel[unfolded k] pair] obtain pre post where
      c: "cell_bufs h' = cell_bufs h @ pre @ [?vals] @ post"
      and r': "r' = \<lparr>buffer_id = length (cell_bufs h) + length pre, view_slots = [0..<length idx]\<rparr>"
      unfolding ps k by blast
    have li: "length idx = length ?vals" by (simp add: ps k)
    have "cell_bufs h' = (cell_bufs h @ pre) @ [?vals] @ post" using c by simp
    then have "view (cell_bufs h') r' = view ((cell_bufs h @ pre) @ [?vals])
        \<lparr>buffer_id = length (cell_bufs h @ pre), view_slots = [0..<length ?vals]\<rparr>"
      unfolding r' li by (simp add: view_def nth_append)
    then have copy: "view (cell_bufs h') r' = ?vals" by (simp only: view_alloc)
    have lt: "buffer_id r < length (cell_bufs h)" using r by (simp add: ref_ok_def)
    have ne: "buffer_id r' \<noteq> buffer_id r" using lt by (simp add: r')
    have v: "view (cell_bufs h') r = view (cell_bufs h) r" unfolding c using lt by (rule view_append)
    have w1: "view (write_view (cell_bufs h') r' vs) r = view (cell_bufs h) r"
      using view_write_other[of r r' "cell_bufs h'" vs] ne v by simp
    have w2: "\<forall>ws. view (write_view (cell_bufs h') r ws) r' = view (cell_bufs h') r'"
      using view_write_other[of r' r "cell_bufs h'"] ne by simp
    from copy ne v w1 w2 show ?thesis by blast
  qed
  have shown: "view (cell_bufs h') r' = map (\<lambda>p. view (cell_bufs h) r ! p) ps"
  proof (cases "is_index_key k")
    case True then show ?thesis using index by blast
  next
    case False
    have le: "hi \<le> length (view (cell_bufs h) r)"
      using key_bounds_le(2)[of "length (view_slots r)" k] by (simp add: hi view_def)
    have "ps = [lo..<hi]" using False by (cases k) (simp_all add: ps lo hi)
    with slice[OF False] take_drop_positions[OF le, of lo] show ?thesis by simp
  qed
  from shown slice index show ?thesis by blast
qed

text \<open>
  The theorem on the example object: for its revealed array selected with the int key 0,
  and for its hazard array selected with the index array \<open>[1]\<close>, whose copy holds the
  hazards of slot 1.
\<close>

lemma example_obj_ok: "list_all (ref_ok (cell_bufs example_heap)) (cell_arrays example_obj)"
  by (simp add: ref_ok_def cell_arrays_def example_heap_def example_obj_def example_game_def)

theorem getitem_views_or_copies_witness:
  "list_all (ref_ok (cell_bufs example_heap)) (cell_arrays example_obj) \<and>
   getitem example_heap example_obj (KInt 0) = Inr (example_heap, selected_obj) \<and>
   (open_cells_ref selected_obj, open_cells_ref example_obj)
      \<in> set (zip (cell_arrays selected_obj) (cell_arrays example_obj)) \<and>
   length [[[0, 1::int]]] = length (view_slots (open_cells_ref selected_obj)) \<and>
   (0::nat) = key_lo (length (view_slots (open_cells_ref example_obj))) (KInt 0) \<and>
   (1::nat) = key_hi (length (view_slots (open_cells_ref example_obj))) (KInt 0) \<and>
   [0::nat] = key_positions (length (view_slots (open_cells_ref example_obj))) (KInt 0) \<and>
   buffer_id (open_cells_ref selected_obj) = buffer_id (open_cells_ref example_obj) \<and>
   view (write_view (cell_bufs example_heap) (open_cells_ref selected_obj) [[[0, 1]]])
        (open_cells_ref example_obj)
     = take 0 (view (cell_bufs example_heap) (open_cells_ref example_obj)) @ [[[0, 1]]] @
       drop (0 + (1 - 0)) (view (cell_bufs example_heap) (open_cells_ref example_obj)) \<and>
   getitem example_heap example_obj (KIndex [1]) = Inr (copied_heap, copied_obj) \<and>
   (mines_ref copied_obj, mines_ref example_obj)
      \<in> set (zip (cell_arrays copied_obj) (cell_arrays example_obj)) \<and>
   length [[[1, 1::int]]] = length (view_slots (mines_ref copied_obj)) \<and>
   [1::nat] = key_positions (length (view_slots (mines_ref example_obj))) (KIndex [1]) \<and>
   view (cell_bufs copied_heap) (mines_ref copied_obj) = [[[0, 1]]] \<and>
   view (cell_bufs example_heap) (mines_ref example_obj) = [[[1, 0]], [[0, 1]]] \<and>
   buffer_id (mines_ref copied_obj) \<noteq> buffer_id (mines_ref example_obj) \<and>
   view (write_view (cell_bufs copied_heap) (mines_ref copied_obj) [[[1, 1]]])
        (mines_ref example_obj)
     = view (cell_bufs example_heap) (mines_ref example_obj)"
proof -
  have p1: "(open_cells_ref selected_obj, open_cells_ref example_obj)
      \<in> set (zip (cell_arrays selected_obj) (cell_arrays example_obj))"
    by (simp add: cell_arrays_def)
  have v1: "length [[[0, 1::int]]] = length (view_slots (open_cells_ref selected_obj))"
    by (simp add: selected_obj_def)
  have lo: "(0::nat) = key_lo (length (view_slots (open_cells_ref example_obj))) (KInt 0)"
    and hi: "(1::nat) = key_hi (length (view_slots (open_cells_ref example_obj))) (KInt 0)"
    and ps1: "[0::nat] = key_positions (length (view_slots (open_cells_ref example_obj))) (KInt 0)"
    by (simp_all add: example_obj_def slice_lo_def slice_hi_def clamp_index_def)
  have p2: "(mines_ref copied_obj, mines_ref example_obj)
      \<in> set (zip (cell_arrays copied_obj) (cell_arrays example_obj))"
    by (simp add: cell_arrays_def)
  have v2: "length [[[1, 1::int]]] = length (view_slots (mines_ref copied_obj))"
    by (simp add: copied_obj_def)
  have ps2: "[1::nat] = key_positions (length (view_slots (mines_ref example_obj))) (KIndex [1])"
    by (simp add: example_obj_def)
  have orig: "view (cell_bufs example_heap) (mines_ref example_obj) = [[[1, 0]], [[0, 1]]]"
    by (simp add: view_def example_heap_def example_obj_def example_game_def)
  note s = getitem_views_or_copies[OF example_obj_ok example_getitem_int p1 v1 lo hi ps1]
  note c = getitem_views_or_copies[OF example_obj_ok example_getitem_index p2 v2 refl refl ps2]
  from s have s': "buffer_id (open_cells_ref selected_obj) = buffer_id (open_cells_ref example_obj) \<and>
   view (write_view (cell_bufs example_heap) (open_cells_ref selected_obj) [[[0, 1]]])
        (open_cells_ref example_obj)
     = take 0 (view (cell_bufs example_heap) (open_cells_ref example_obj)) @ [[[0, 1]]] @
       drop (0 + (1 - 0)) (view (cell_bufs example_heap) (open_cells_ref example_obj))"
    by simp
  from c orig have c': "view (cell_bufs copied_heap) (mines_ref copied_obj) = [[[0, 1]]] \<and>
   buffer_id (mines_ref copied_obj) \<noteq> buffer_id (mines_ref example_obj) \<and>
   view (write_view (cell_bufs copied_heap) (mines_ref copied_obj) [[[1, 1]]])
        (mines_ref example_obj)
     = view (cell_bufs example_heap) (mines_ref example_obj)"
    by simp
  from example_obj_ok example_getitem_int p1 v1 lo hi ps1 s' example_getitem_index p2 v2 ps2 c' orig
  show ?thesis by blast
qed
section \<open>The recursive cascade opens the region\<close>











































section \<open>The cascade of the earlier engine\<close>

text \<open>
  On a square board the recursive \<^verbatim>\<open>open_zero\<close> opens the zeros connected to its start
  cell with the numbers around them, and leaves the hazard closed.
\<close>

lemma square_game_init: "legacy_init 3 3 1 1 [[8]] = square_game"
  unfolding square_game_def by code_simp

lemma square_open_zero:
  "open_zero_legacy 4 square_game =
     Some (Inr (square_game\<lparr>states := [[1, 1, 1, 1, 1, 1, 1, 1, 0]],
                  visible_grids := [[0, 0, 0, 0, 1, 1, 0, 1, 0]], scores_l := [0],
                  active_grids := [False], won_l := [True]\<rparr>))"
  unfolding square_game_def by code_simp

text \<open>
  Claim C3. The open_zero of the current engine never reveals a hazard
  (\<open>open_zero_never_reveals_hazard\<close>). The recursive \<^verbatim>\<open>open_zero\<close> of the earlier \<^verbatim>\<open>game.py\<close>
  does, on a board that is not square: it takes the row of its start cell from
  \<^verbatim>\<open>floor_divide(c, self.rows)\<close> where the flat position \<open>c\<close> has to be divided by the number
  of columns. On the 3\<times>5 board constructed with hazards at 5, 7 and 14 the first zero is
  the flat cell 4, the cell \<open>(0, 4)\<close>; the cascade starts at \<open>(1, 4)\<close> instead, whose number is
  1, and opens its whole neighbourhood, the hazard at \<open>(2, 4)\<close> included.
\<close>

theorem legacy_open_zero_opens_hazard:
  "legacy_init 3 5 3 1 [[5, 7, 14]] = lopsided_game \<and>
   start_cells lopsided_game = [(0, 2, 5)] \<and>
   open_zero_legacy 1 lopsided_game = Some (Inr lopsided_opened) \<and>
   fields_l lopsided_game ! 0 ! 14 = 1 \<and>
   states lopsided_game ! 0 ! 14 = 0 \<and>
   states lopsided_opened ! 0 ! 14 = 1"
  unfolding lopsided_game_def lopsided_opened_def by code_simp


section \<open>What \<^verbatim>\<open>open_zero\<close> reveals\<close>









end
